theory Spec2Isabelle
  imports Complex_Main "HOL-Library.Sublist" "HOL-Library.AList"
begin

section \<open>Festlist: artist extraction, reconciliation and catalog matching\<close>

text \<open>
  A shallow embedding of the extraction and matching core of the festlist backend:
  \<^verbatim>\<open>app/services/artist_extraction_service.py\<close>, \<^verbatim>\<open>app/services/gemini_service.py\<close> and
  \<^verbatim>\<open>app/services/spotify_service.py\<close>.

  Modelling conventions.
  \<^item> A Python \<^verbatim>\<open>str\<close> is a \<^typ>\<open>string\<close>. The character classes below are those of
    Python on ASCII text; a character with code 128 or above belongs to no class.
  \<^item> A Python \<^verbatim>\<open>float\<close> that carries a score is a \<^typ>\<open>real\<close>: comparisons are exact,
    the rounding of float arithmetic is not modelled. The non-finite floats that the JSON
    decoder can produce are kept apart (type \<open>pyfloat\<close>).
  \<^item> An exception is a value of type \<open>exn\<close>; code that may raise returns \<open>exn + 'a\<close>.
\<close>

subsection \<open>Characters and the string methods used by the services\<close>

definition is_space :: "char \<Rightarrow> bool" where
  \<comment> \<open>\<^verbatim>\<open>str.isspace\<close>, also the class \<^verbatim>\<open>\s\<close>: TAB, LF, VT, FF, CR, FS, GS, RS, US, SPACE\<close>
  "is_space c \<longleftrightarrow> c \<in> set [CHR 0x09, CHR 0x0A, CHR 0x0B, CHR 0x0C, CHR 0x0D,
                              CHR 0x1C, CHR 0x1D, CHR 0x1E, CHR 0x1F, CHR '' '']"

definition upper_chars :: string where
  "upper_chars = ''ABCDEFGHIJKLMNOPQRSTUVWXYZ''"

definition lower_chars :: string where
  "lower_chars = ''abcdefghijklmnopqrstuvwxyz''"

definition digit_chars :: string where
  "digit_chars = ''0123456789''"

definition is_upper :: "char \<Rightarrow> bool" where
  "is_upper c \<longleftrightarrow> c \<in> set upper_chars"

definition is_lower :: "char \<Rightarrow> bool" where
  "is_lower c \<longleftrightarrow> c \<in> set lower_chars"

definition is_digit :: "char \<Rightarrow> bool" where
  "is_digit c \<longleftrightarrow> c \<in> set digit_chars"

definition is_word :: "char \<Rightarrow> bool" where
  \<comment> \<open>the class \<^verbatim>\<open>\w\<close>\<close>
  "is_word c \<longleftrightarrow> is_upper c \<or> is_lower c \<or> is_digit c \<or> c = CHR ''_''"

definition lower_char :: "char \<Rightarrow> char" where
  "lower_char c = (case map_of (zip upper_chars lower_chars) c of Some d \<Rightarrow> d | None \<Rightarrow> c)"

definition lower :: "string \<Rightarrow> string" where
  \<comment> \<open>\<^verbatim>\<open>str.lower\<close>\<close>
  "lower s = map lower_char s"

definition strip :: "string \<Rightarrow> string" where
  \<comment> \<open>\<^verbatim>\<open>str.strip()\<close>\<close>
  "strip s = rev (dropWhile is_space (rev (dropWhile is_space s)))"

fun split_acc :: "string \<Rightarrow> string \<Rightarrow> string list" where
  "split_acc cur [] = (if cur = [] then [] else [rev cur])"
| "split_acc cur (c # cs) =
     (if is_space c then (if cur = [] then split_acc [] cs else rev cur # split_acc [] cs)
      else split_acc (c # cur) cs)"

definition split :: "string \<Rightarrow> string list" where
  \<comment> \<open>\<^verbatim>\<open>str.split()\<close>: the maximal runs of non-whitespace characters\<close>
  "split s = split_acc [] s"

fun split_on :: "char \<Rightarrow> string \<Rightarrow> string list" where
  \<comment> \<open>\<^verbatim>\<open>str.split(sep)\<close> for a one-character separator: empty pieces are kept\<close>
  "split_on d [] = [[]]"
| "split_on d (c # cs) =
     (if c = d then [] # split_on d cs
      else (case split_on d cs of [] \<Rightarrow> [[c]] | w # ws \<Rightarrow> (c # w) # ws))"

fun contains :: "string \<Rightarrow> string \<Rightarrow> bool" where
  \<comment> \<open>\<^verbatim>\<open>sub in s\<close>\<close>
  "contains sub [] = (sub = [])"
| "contains sub (c # cs) = (prefix sub (c # cs) \<or> contains sub cs)"

fun count_from :: "string \<Rightarrow> nat \<Rightarrow> string \<Rightarrow> nat" where
  \<comment> \<open>the scan of \<^verbatim>\<open>str.count\<close> for a non-empty \<open>sub\<close>; \<open>k\<close> characters of the last
      occurrence are still to be skipped, so that occurrences do not overlap\<close>
  "count_from sub k [] = 0"
| "count_from sub k (c # cs) =
     (if 0 < k then count_from sub (k - 1) cs
      else if prefix sub (c # cs) then Suc (count_from sub (length sub - 1) cs)
      else count_from sub 0 cs)"

definition count :: "string \<Rightarrow> string \<Rightarrow> nat" where
  \<comment> \<open>\<^verbatim>\<open>s.count(sub)\<close>\<close>
  "count s sub = (if sub = [] then Suc (length s) else count_from sub 0 s)"

subsection \<open>Catalog matching (spotify\_service.py)\<close>

definition calculate_artist_match_score :: "string \<Rightarrow> string \<Rightarrow> real" where
  "calculate_artist_match_score search_name found_name =
     (let search_lower = strip (lower search_name);
          found_lower = strip (lower found_name)
      in if search_lower = found_lower then 1
         else if contains search_lower found_lower \<or> contains found_lower search_lower then 9 / 10
         else let search_words = set (split search_lower);
                  found_words = set (split found_lower)
              in if search_words = {} \<or> found_words = {} then 0
                 else let overlap = card (search_words \<inter> found_words);
                          total = card (search_words \<union> found_words)
                      in if 0 < total then real overlap / real total else 0)"

record catalog_entry =
  entry_id :: string
  entry_name :: string

fun best_match_loop ::
  "string \<Rightarrow> catalog_entry list \<Rightarrow> catalog_entry option \<times> real \<Rightarrow> catalog_entry option \<times> real"
where
  \<comment> \<open>the \<^verbatim>\<open>for artist in artists\<close> loop of \<^verbatim>\<open>search_artist\<close>, on \<open>(best_match, best_score)\<close>\<close>
  "best_match_loop artist_name [] acc = acc"
| "best_match_loop artist_name (artist # artists) (best_match, best_score) =
     (let score = calculate_artist_match_score artist_name (entry_name artist)
      in if score > best_score then best_match_loop artist_name artists (Some artist, score)
         else best_match_loop artist_name artists (best_match, best_score))"

definition search_artist_select :: "string \<Rightarrow> catalog_entry list \<Rightarrow> catalog_entry option" where
  \<comment> \<open>\<^verbatim>\<open>search_artist\<close> from \<^verbatim>\<open>if artists:\<close> on, given the hits of the catalog search\<close>
  "search_artist_select artist_name artists =
     (case best_match_loop artist_name artists (None, 0) of
        (Some best_match, best_score) \<Rightarrow> if best_score > 7 / 10 then Some best_match else None
      | (None, _) \<Rightarrow> None)"

subsection \<open>Regular expressions as Python's \<^verbatim>\<open>re\<close> matches them\<close>

text \<open>
  The services call \<^verbatim>\<open>re.sub\<close>, \<^verbatim>\<open>re.findall\<close>, \<^verbatim>\<open>re.search\<close> and \<^verbatim>\<open>re.match\<close> on fixed
  patterns. The matcher below is the backtracking one of the library: from a position it
  lists every way the pattern can match, in the order in which the library tries them
  (a greedy repetition tries one more round first, a lazy one tries to stop first), so the
  head of the list is the match the library reports. A state is the character before the
  position, which \<^verbatim>\<open>\b\<close> inspects, and the input that is left.
\<close>

datatype regex =
    Eps
  | Sym "char \<Rightarrow> bool"
  | Bnd
  | Seq regex regex
  | Alt regex regex
  | Star regex
  | Lazy regex

type_synonym mstate = "char option \<times> string"

definition word_before :: "char option \<Rightarrow> bool" where
  "word_before p = (case p of None \<Rightarrow> False | Some c \<Rightarrow> is_word c)"

definition word_after :: "string \<Rightarrow> bool" where
  "word_after s = (case s of [] \<Rightarrow> False | c # _ \<Rightarrow> is_word c)"

fun ms :: "regex \<Rightarrow> mstate \<Rightarrow> mstate list" where
  "ms Eps st = [st]"
| "ms (Sym P) (p, []) = []"
| "ms (Sym P) (p, c # cs) = (if P c then [(Some c, cs)] else [])"
| "ms Bnd (p, s) = (if word_before p \<noteq> word_after s then [(p, s)] else [])"
| "ms (Seq a b) st = concat (map (ms b) (ms a st))"
| "ms (Alt a b) st = ms a st @ ms b st"
| "ms (Star a) st =
     concat (map (\<lambda>st'. if length (snd st') < length (snd st) then ms (Star a) st' else [])
                 (ms a st)) @ [st]"
| "ms (Lazy a) st =
     st # concat (map (\<lambda>st'. if length (snd st') < length (snd st) then ms (Lazy a) st' else [])
                      (ms a st))"

definition seqs :: "regex list \<Rightarrow> regex" where
  "seqs rs = foldr Seq rs Eps"

definition lit :: "char \<Rightarrow> regex" where
  "lit c = Sym (\<lambda>x. x = c)"

definition lits :: "string \<Rightarrow> regex" where
  "lits s = seqs (map lit s)"

definition plus :: "regex \<Rightarrow> regex" where
  \<comment> \<open>\<^verbatim>\<open>r+\<close>\<close>
  "plus r = Seq r (Star r)"

definition opt :: "regex \<Rightarrow> regex" where
  \<comment> \<open>\<^verbatim>\<open>r?\<close>\<close>
  "opt r = Alt r Eps"

definition digit :: regex where
  \<comment> \<open>\<^verbatim>\<open>\d\<close>\<close>
  "digit = Sym is_digit"

definition space :: regex where
  \<comment> \<open>\<^verbatim>\<open>\s\<close>\<close>
  "space = Sym is_space"

definition nonspace :: regex where
  \<comment> \<open>\<^verbatim>\<open>\S\<close>\<close>
  "nonspace = Sym (\<lambda>c. \<not> is_space c)"

definition anychar :: regex where
  \<comment> \<open>\<^verbatim>\<open>.\<close> under \<^verbatim>\<open>re.DOTALL\<close>\<close>
  "anychar = Sym (\<lambda>c. True)"

fun sub_scan :: "regex \<Rightarrow> string \<Rightarrow> char option \<Rightarrow> string \<Rightarrow> string" where
  \<comment> \<open>the scan of \<^verbatim>\<open>re.sub\<close>; none of the patterns of the services matches the empty string\<close>
  "sub_scan r repl p [] = []"
| "sub_scan r repl p (c # cs) =
     (case ms r (p, c # cs) of
        [] \<Rightarrow> c # sub_scan r repl (Some c) cs
      | (p', s') # _ \<Rightarrow>
          if length s' < length (c # cs) then repl @ sub_scan r repl p' s'
          else c # sub_scan r repl (Some c) cs)"

definition re_sub :: "regex \<Rightarrow> string \<Rightarrow> string \<Rightarrow> string" where
  \<comment> \<open>\<^verbatim>\<open>re.sub(r, repl, s)\<close>\<close>
  "re_sub r repl s = sub_scan r repl None s"

fun findall_scan :: "regex \<Rightarrow> char option \<Rightarrow> string \<Rightarrow> string list" where
  "findall_scan r p [] = []"
| "findall_scan r p (c # cs) =
     (case ms r (p, c # cs) of
        [] \<Rightarrow> findall_scan r (Some c) cs
      | (p', s') # _ \<Rightarrow>
          if length s' < length (c # cs)
          then take (length (c # cs) - length s') (c # cs) # findall_scan r p' s'
          else findall_scan r (Some c) cs)"

definition re_findall :: "regex \<Rightarrow> string \<Rightarrow> string list" where
  \<comment> \<open>\<^verbatim>\<open>re.findall(r, s)\<close> for a pattern without capturing groups\<close>
  "re_findall r s = findall_scan r None s"

fun search_scan :: "regex \<Rightarrow> char option \<Rightarrow> string \<Rightarrow> string option" where
  "search_scan r p [] = None"
| "search_scan r p (c # cs) =
     (case ms r (p, c # cs) of
        [] \<Rightarrow> search_scan r (Some c) cs
      | (p', s') # _ \<Rightarrow> Some (take (length (c # cs) - length s') (c # cs)))"

definition re_search :: "regex \<Rightarrow> string \<Rightarrow> string option" where
  \<comment> \<open>\<^verbatim>\<open>re.search(r, s)\<close>, giving \<^verbatim>\<open>.group()\<close> of the match\<close>
  "re_search r s = search_scan r None s"

definition re_match :: "regex \<Rightarrow> string \<Rightarrow> bool" where
  \<comment> \<open>whether \<^verbatim>\<open>re.match(r, s)\<close> finds a match at the start of \<open>s\<close>\<close>
  "re_match r s \<longleftrightarrow> ms r (None, s) \<noteq> []"

subsection \<open>Text cleaning (artist\_extraction\_service.py)\<close>

definition ws_re :: regex where
  \<comment> \<open>\<^verbatim>\<open>\s+\<close>\<close>
  "ws_re = plus space"

definition time_re :: regex where
  \<comment> \<open>\<^verbatim>\<open>\b\d{1,2}[:/]\d{2}\b\<close>\<close>
  "time_re = seqs [Bnd, digit, opt digit, Sym (\<lambda>c. c = CHR '':'' \<or> c = CHR ''/''),
                   digit, digit, Bnd]"

definition price_re :: regex where
  \<comment> \<open>\<^verbatim>\<open>\$\d+\<close>\<close>
  "price_re = seqs [lit CHR ''$'', plus digit]"

definition date_re :: regex where
  \<comment> \<open>\<^verbatim>\<open>\b\d{1,2}/\d{1,2}/\d{2,4}\b\<close>\<close>
  "date_re = seqs [Bnd, digit, opt digit, lit CHR ''/'', digit, opt digit, lit CHR ''/'',
                   digit, digit, opt (Seq digit (opt digit)), Bnd]"

definition url_re :: regex where
  \<comment> \<open>\<^verbatim>\<open>\bwww\.\S+\b\<close>\<close>
  "url_re = seqs [Bnd, lits ''www'', lit CHR ''.'', plus nonspace, Bnd]"

definition email_re :: regex where
  \<comment> \<open>\<^verbatim>\<open>\b\S+@\S+\.\S+\b\<close>\<close>
  "email_re = seqs [Bnd, plus nonspace, lit CHR ''@'', plus nonspace, lit CHR ''.'',
                    plus nonspace, Bnd]"

definition collapse_ws :: "string \<Rightarrow> string" where
  \<comment> \<open>line 60: \<^verbatim>\<open>re.sub(r'\s+', ' ', text.strip())\<close>\<close>
  "collapse_ws text = re_sub ws_re '' '' (strip text)"

definition removals :: "string \<Rightarrow> string" where
  \<comment> \<open>lines 62 to 66: the five deletions, in the order of the source\<close>
  "removals text =
     (let text = re_sub time_re [] text;
          text = re_sub price_re [] text;
          text = re_sub date_re [] text;
          text = re_sub url_re [] text;
          text = re_sub email_re [] text
      in text)"

definition clean_text :: "string \<Rightarrow> string" where
  "clean_text text = strip (removals (collapse_ws text))"

subsection \<open>Pattern extraction (artist\_extraction\_service.py)\<close>

datatype exn =
    IndexError | AttributeError | TypeError | ValueError | OverflowError
  | JSONDecodeError | ServiceError

record candidate =
  name :: string
  confidence :: real
  "method" :: string
  "context" :: string

definition filter_words :: "string list" where
  "filter_words =
    [''festival'', ''fest'', ''music'', ''stage'', ''main'', ''tent'', ''arena'', ''hall'',
     ''presents'', ''featuring'', ''with'', ''special'', ''guest'', ''guests'', ''live'',
     ''concert'', ''show'', ''performance'', ''event'', ''venue'', ''location'', ''date'',
     ''time'', ''tickets'', ''admission'', ''price'', ''cost'', ''age'', ''limit'', ''door'',
     ''doors'', ''open'', ''start'', ''end'', ''saturday'', ''sunday'', ''monday'', ''tuesday'',
     ''wednesday'', ''thursday'', ''friday'', ''january'', ''february'', ''march'', ''april'',
     ''may'', ''june'', ''july'', ''august'', ''september'', ''october'', ''november'',
     ''december'', ''am'', ''pm'', ''sponsored'', ''by'', ''presented'', ''produced'',
     ''organized'']"

definition capword :: regex where
  \<comment> \<open>\<^verbatim>\<open>[A-Z][a-z]+\<close>\<close>
  "capword = Seq (Sym is_upper) (plus (Sym is_lower))"

definition artist_patterns :: "regex list" where
  "artist_patterns =
    [seqs [Bnd, capword, Star (seqs [plus space, capword]), Bnd],
     seqs [Bnd, plus (Sym is_upper), Bnd],
     seqs [Bnd, capword, plus (seqs [plus space, lit CHR ''&'', plus space, capword]), Bnd],
     seqs [Bnd, capword, plus (seqs [plus space, lits ''and'', plus space, capword]), Bnd]]"

definition calculate_pattern_confidence :: "string \<Rightarrow> string \<Rightarrow> string \<Rightarrow> exn + real" where
  "calculate_pattern_confidence match line full_text =
     (case match of
        [] \<Rightarrow> Inl IndexError
      | m0 # rest \<Rightarrow>
          let confidence = 5 / 10;
              confidence = (if is_upper m0 \<and> list_ex is_lower rest
                            then confidence + 2 / 10 else confidence);
              confidence = (if strip line = strip match
                            then confidence + 3 / 10 else confidence);
              confidence = (if 3 \<le> length (split match) \<and> length (split match) \<le> 4
                            then confidence + 1 / 10 else confidence);
              confidence = (if list_ex is_digit match
                            then confidence - 2 / 10 else confidence);
              occurrences = count (lower full_text) (lower match);
              confidence = (if occurrences > 1
                            then confidence + min (2 / 10) (real occurrences * (5 / 100))
                            else confidence)
          in Inr (min 1 (max 0 confidence)))"

fun collect :: "('a \<Rightarrow> exn + 'b list) \<Rightarrow> 'a list \<Rightarrow> exn + 'b list" where
  \<comment> \<open>a \<^verbatim>\<open>for\<close> loop that appends to a list; an exception in the body leaves the loop\<close>
  "collect f [] = Inr []"
| "collect f (x # xs) =
     (case f x of
        Inl e \<Rightarrow> Inl e
      | Inr ys \<Rightarrow> (case collect f xs of Inl e \<Rightarrow> Inl e | Inr zs \<Rightarrow> Inr (ys @ zs)))"

definition process_match :: "string \<Rightarrow> string \<Rightarrow> string \<Rightarrow> exn + candidate list" where
  \<comment> \<open>the body of \<^verbatim>\<open>for match in matches\<close>\<close>
  "process_match text line match =
     (let words = split (lower match)
      in if list_ex (\<lambda>word. word \<in> set filter_words) words then Inr []
         else if length match < 2 \<or> length match > 50 then Inr []
         else (case calculate_pattern_confidence match line text of
                 Inl e \<Rightarrow> Inl e
               | Inr score \<Rightarrow>
                   if score > 3 / 10
                   then Inr [\<lparr>name = strip match, confidence = score, method =
                              ''pattern_matching'', context = strip line\<rparr>]
                   else Inr []))"

definition process_line :: "string \<Rightarrow> string \<Rightarrow> exn + candidate list" where
  \<comment> \<open>the body of \<^verbatim>\<open>for line in text_lines\<close>\<close>
  "process_line text line0 =
     (let line = strip line0
      in if line = [] \<or> length line < 2 then Inr []
         else collect (\<lambda>pattern. collect (process_match text line) (re_findall pattern line))
                artist_patterns)"

definition potential_artists :: "string \<Rightarrow> exn + candidate list" where
  "potential_artists text = collect (process_line text) (split_on CHR 0x0A text)"

definition by_confidence_desc :: "candidate list \<Rightarrow> candidate list" where
  \<comment> \<open>\<^verbatim>\<open>sorted(xs, key=lambda x: x['confidence'], reverse=True)\<close>: stable, candidates of
      equal confidence keep their order\<close>
  "by_confidence_desc xs = sort_key (\<lambda>x. - confidence x) xs"

fun unique_artists :: "string set \<Rightarrow> candidate list \<Rightarrow> candidate list" where
  \<comment> \<open>the loop over the sorted candidates, with the set \<^verbatim>\<open>seen\<close>\<close>
  "unique_artists seen [] = []"
| "unique_artists seen (artist # artists) =
     (let name_lower = lower (name artist)
      in if name_lower \<notin> seen then artist # unique_artists (insert name_lower seen) artists
         else unique_artists seen artists)"

definition extract_with_patterns :: "string \<Rightarrow> exn + candidate list" where
  "extract_with_patterns text =
     (case potential_artists text of
        Inl e \<Rightarrow> Inl e
      | Inr found \<Rightarrow> Inr (take 20 (unique_artists {} (by_confidence_desc found))))"

subsection \<open>Reconciliation (the merge in \<^verbatim>\<open>extract_artists\<close>)\<close>

text \<open>
  The dictionary \<^verbatim>\<open>merged_artists\<close> is an association list in insertion order: assigning
  to a key that is present replaces its value in place, assigning to a new key appends,
  which is what \<^const>\<open>AList.update\<close> does.
\<close>

definition merge_step :: "(string \<times> candidate) list \<Rightarrow> candidate \<Rightarrow> (string \<times> candidate) list" where
  "merge_step merged artist =
     (let name_key = lower (name artist)
      in case map_of merged name_key of
           Some kept \<Rightarrow>
             if confidence artist > confidence kept then AList.update name_key artist merged
             else merged
         | None \<Rightarrow> AList.update name_key artist merged)"

definition merged_artists :: "candidate list \<Rightarrow> (string \<times> candidate) list" where
  "merged_artists all_artists = foldl merge_step [] all_artists"

definition reconcile :: "candidate list \<Rightarrow> real \<Rightarrow> candidate list" where
  \<comment> \<open>lines 283 to 299: merge, filter by the threshold, sort\<close>
  "reconcile all_artists confidence_threshold =
     by_confidence_desc
       (filter (\<lambda>artist. confidence artist \<ge> confidence_threshold)
               (map snd (merged_artists all_artists)))"

subsection \<open>Decoded JSON and the Python built-ins applied to it\<close>

datatype pyfloat = Finite real | PosInf | NegInf | NaN

datatype json =
    JNull
  | JBool bool
  | JInt int
  | JFloat pyfloat
  | JStr string
  | JArr "json list"
  | JObj "(string \<times> json) list"

text \<open>
  The JSON decoder, \<^verbatim>\<open>str\<close> of a value that is not a string and \<^verbatim>\<open>float\<close> of a string
  belong to the Python library; they are parameters of the model. A decoded object is the
  association list of its dictionary.
\<close>

record pylib =
  json_loads :: "string \<Rightarrow> exn + json"
  repr_of :: "json \<Rightarrow> string"
  float_of_str :: "string \<Rightarrow> exn + pyfloat"

definition float_of_int :: "int \<Rightarrow> exn + pyfloat" where
  \<comment> \<open>\<^verbatim>\<open>float(i)\<close>: an integer that rounds beyond the largest double raises\<close>
  "float_of_int i =
     (if \<bar>i\<bar> \<ge> 2 ^ 1024 - 2 ^ 970 then Inl OverflowError else Inr (Finite (real_of_int i)))"

definition is_number :: "json \<Rightarrow> bool" where
  \<comment> \<open>\<^verbatim>\<open>isinstance(v, (int, float))\<close>; \<^verbatim>\<open>bool\<close> is a subclass of \<^verbatim>\<open>int\<close>\<close>
  "is_number v = (case v of JInt _ \<Rightarrow> True | JFloat _ \<Rightarrow> True | JBool _ \<Rightarrow> True | _ \<Rightarrow> False)"

definition float_of_number :: "json \<Rightarrow> exn + pyfloat" where
  \<comment> \<open>\<^verbatim>\<open>float(v)\<close> for a number; on a value without a float conversion it raises\<close>
  "float_of_number v =
     (case v of
        JInt i \<Rightarrow> float_of_int i
      | JFloat f \<Rightarrow> Inr f
      | JBool b \<Rightarrow> Inr (Finite (if b then 1 else 0))
      | _ \<Rightarrow> Inl TypeError)"

definition py_float :: "pylib \<Rightarrow> json \<Rightarrow> exn + pyfloat" where
  \<comment> \<open>\<^verbatim>\<open>float(v)\<close>\<close>
  "py_float lib v = (case v of JStr s \<Rightarrow> float_of_str lib s | _ \<Rightarrow> float_of_number v)"

definition py_str :: "pylib \<Rightarrow> json \<Rightarrow> string" where
  \<comment> \<open>\<^verbatim>\<open>str(v)\<close>\<close>
  "py_str lib v = (case v of JStr s \<Rightarrow> s | _ \<Rightarrow> repr_of lib v)"

definition iterate :: "json \<Rightarrow> exn + json list" where
  \<comment> \<open>what \<^verbatim>\<open>for artist in artists_data\<close> runs over: the items of a list, the keys of a
      dictionary, the characters of a string; anything else is not iterable\<close>
  "iterate v =
     (case v of
        JArr xs \<Rightarrow> Inr xs
      | JObj kvs \<Rightarrow> Inr (map (\<lambda>kv. JStr (fst kv)) kvs)
      | JStr s \<Rightarrow> Inr (map (\<lambda>c. JStr [c]) s)
      | _ \<Rightarrow> Inl TypeError)"

definition clamp_unit :: "pyfloat \<Rightarrow> real" where
  \<comment> \<open>\<^verbatim>\<open>max(0.0, min(1.0, x))\<close>: \<^verbatim>\<open>min\<close> and \<^verbatim>\<open>max\<close> keep their first argument unless the
      second compares strictly below (above) it, and no comparison with NaN holds\<close>
  "clamp_unit x =
     (case x of
        Finite r \<Rightarrow> (let m = (if r < 1 then r else 1) in if m > 0 then m else 0)
      | PosInf \<Rightarrow> 1
      | NegInf \<Rightarrow> 0
      | NaN \<Rightarrow> 1)"

subsection \<open>The Gemini adapter (gemini\_service.py)\<close>

definition excluded_terms :: "string list" where
  "excluded_terms =
    [''festival'', ''music'', ''stage'', ''main'', ''tent'', ''area'', ''zone'',
     ''tickets'', ''price'', ''cost'', ''free'', ''admission'', ''entry'',
     ''food'', ''drinks'', ''bar'', ''restaurant'', ''vendor'',
     ''parking'', ''shuttle'', ''transport'', ''bus'',
     ''saturday'', ''sunday'', ''monday'', ''tuesday'', ''wednesday'', ''thursday'', ''friday'',
     ''january'', ''february'', ''march'', ''april'', ''may'', ''june'',
     ''july'', ''august'', ''september'', ''october'', ''november'', ''december'',
     ''am'', ''pm'', ''time'', ''schedule'', ''lineup'',
     ''sponsored'', ''presents'', ''featuring'', ''with'']"

definition clock_re :: regex where
  \<comment> \<open>\<^verbatim>\<open>^\d{1,2}:\d{2}\<close>, tried at the start of the name by \<^verbatim>\<open>re.match\<close>\<close>
  "clock_re = seqs [digit, opt digit, lit CHR '':'', digit, digit]"

definition ampm_re :: regex where
  \<comment> \<open>\<^verbatim>\<open>^\d{1,2}(am|pm)\<close>\<close>
  "ampm_re = seqs [digit, opt digit, Alt (lits ''am'') (lits ''pm'')]"

definition dollar_re :: regex where
  \<comment> \<open>\<^verbatim>\<open>^\$\d+\<close>\<close>
  "dollar_re = seqs [lit CHR ''$'', plus digit]"

definition is_likely_artist_name :: "string \<Rightarrow> bool" where
  "is_likely_artist_name nm =
     (let name_lower = strip (lower nm)
      in if length nm < 2 \<or> name_lower \<in> set excluded_terms then False
         else if re_match clock_re nm \<or> re_match ampm_re name_lower then False
         else if re_match dollar_re nm \<or> contains ''dollar'' name_lower then False
         else True)"

definition array_lazy_re :: regex where
  \<comment> \<open>\<^verbatim>\<open>\[.*?\]\<close> with \<^verbatim>\<open>re.DOTALL\<close>\<close>
  "array_lazy_re = seqs [lit CHR ''['', Lazy anychar, lit CHR '']'']"

definition gemini_entry :: "json \<Rightarrow> exn + candidate list" where
  \<comment> \<open>the body of \<^verbatim>\<open>for artist in artists_data\<close> in \<^verbatim>\<open>_parse_gemini_response\<close>\<close>
  "gemini_entry artist =
     (case artist of
        JObj kvs \<Rightarrow>
          (case (case map_of kvs ''name'' of
                   None \<Rightarrow> Inr (strip [])
                 | Some (JStr s) \<Rightarrow> Inr (strip s)
                 | Some _ \<Rightarrow> Inl AttributeError) of
             Inl e \<Rightarrow> Inl e
           | Inr nm \<Rightarrow>
               let conf = (case map_of kvs ''confidence'' of
                             None \<Rightarrow> JFloat (Finite 0) | Some v \<Rightarrow> v)
               in if nm = [] \<or> \<not> is_number conf then Inr []
                  else (case float_of_number conf of
                          Inl e \<Rightarrow> Inl e
                        | Inr f \<Rightarrow>
                            if is_likely_artist_name nm
                            then Inr [\<lparr>name = nm, confidence = clamp_unit f, method =
                                       ''gemini'', context = []\<rparr>]
                            else Inr []))
      | _ \<Rightarrow> Inr [])"

definition catch_all :: "exn + candidate list \<Rightarrow> exn + candidate list" where
  \<comment> \<open>\<^verbatim>\<open>try: ... except Exception: return []\<close>\<close>
  "catch_all body = (case body of Inl e \<Rightarrow> Inr [] | Inr cs \<Rightarrow> Inr cs)"

definition parse_gemini_response :: "pylib \<Rightarrow> string \<Rightarrow> exn + candidate list" where
  "parse_gemini_response lib response_text =
     catch_all
       (let cleaned_text = strip response_text
        in case re_search array_lazy_re cleaned_text of
             None \<Rightarrow> Inr []
           | Some json_str \<Rightarrow>
               (case json_loads lib json_str of
                  Inl e \<Rightarrow> Inl e
                | Inr artists_data \<Rightarrow>
                    (case iterate artists_data of
                       Inl e \<Rightarrow> Inl e
                     | Inr items \<Rightarrow> collect gemini_entry items)))"

text \<open>
  The state of the two services. \<open>gemini_model\<close> is \<^verbatim>\<open>GeminiService.model\<close>: \<open>None\<close> when
  the package or the API key is missing, else the call \<^verbatim>\<open>generate_content(...)\<close> followed
  by \<^verbatim>\<open>.text\<close>, which answers with a text or raises. \<open>project_id\<close> is
  \<^verbatim>\<open>ArtistExtractionService.project_id\<close>, and \<open>vertex_predict\<close> is the import of the
  model class, \<^verbatim>\<open>from_pretrained\<close>, \<^verbatim>\<open>predict\<close> and \<^verbatim>\<open>.text\<close>. Both providers are functions of
  the text (or image path) that the prompt is built from.
\<close>

record services =
  library :: pylib
  gemini_model :: "(string \<Rightarrow> exn + string) option"
  project_id :: "string option"
  vertex_predict :: "string \<Rightarrow> exn + string"

definition is_available :: "services \<Rightarrow> bool" where
  "is_available svc \<longleftrightarrow> gemini_model svc \<noteq> None"

definition gemini_generate :: "services \<Rightarrow> string \<Rightarrow> exn + candidate list" where
  \<comment> \<open>the body shared by \<^verbatim>\<open>extract_artists_from_text\<close> and \<^verbatim>\<open>extract_artists_from_image\<close>\<close>
  "gemini_generate svc input =
     (if \<not> is_available svc then Inr []
      else catch_all
             (case gemini_model svc of
                None \<Rightarrow> Inl AttributeError
              | Some generate_content \<Rightarrow>
                  (case generate_content input of
                     Inl e \<Rightarrow> Inl e
                   | Inr response_text \<Rightarrow>
                       if response_text \<noteq> [] then parse_gemini_response (library svc) response_text
                       else Inr [])))"

definition extract_artists_from_text :: "services \<Rightarrow> string \<Rightarrow> exn + candidate list" where
  "extract_artists_from_text svc text = gemini_generate svc text"

definition extract_artists_from_image :: "services \<Rightarrow> string \<Rightarrow> exn + candidate list" where
  \<comment> \<open>opening the image happens inside the same \<^verbatim>\<open>try\<close> block: its failure is a failure
      of the provider call\<close>
  "extract_artists_from_image svc image_path = gemini_generate svc image_path"

subsection \<open>The Vertex AI adapter and the Gemini wrapper (artist\_extraction\_service.py)\<close>

definition array_greedy_re :: regex where
  \<comment> \<open>\<^verbatim>\<open>\[.*\]\<close> with \<^verbatim>\<open>re.DOTALL\<close>\<close>
  "array_greedy_re = seqs [lit CHR ''['', Star anychar, lit CHR '']'']"

definition vertex_entry :: "pylib \<Rightarrow> json \<Rightarrow> exn + candidate list" where
  \<comment> \<open>the body of \<^verbatim>\<open>for artist in artists_data\<close> in \<^verbatim>\<open>extract_with_vertex_ai\<close>\<close>
  "vertex_entry lib artist =
     (case artist of
        JObj kvs \<Rightarrow>
          (case (map_of kvs ''name'', map_of kvs ''confidence'') of
             (Some n, Some c) \<Rightarrow>
               (let nm = strip (py_str lib n)
                in case py_float lib c of
                     Inl e \<Rightarrow> Inl e
                   | Inr (Finite r) \<Rightarrow>
                       if nm \<noteq> [] \<and> 0 \<le> r \<and> r \<le> 1
                       then Inr [\<lparr>name = nm, confidence = r, method = ''vertex_ai'', context = []\<rparr>]
                       else Inr []
                   | Inr _ \<Rightarrow> Inr [])
           | _ \<Rightarrow> Inr [])
      | _ \<Rightarrow> Inr [])"

definition extract_with_vertex_ai :: "services \<Rightarrow> string \<Rightarrow> exn + candidate list" where
  "extract_with_vertex_ai svc text =
     (if (case project_id svc of None \<Rightarrow> True | Some p \<Rightarrow> p = []) then Inr []
      else catch_all
             (case vertex_predict svc text of
                Inl e \<Rightarrow> Inl e
              | Inr response \<Rightarrow>
                  (let response_text = strip response
                   in case re_search array_greedy_re response_text of
                        None \<Rightarrow> Inr []
                      | Some json_str \<Rightarrow>
                          (case json_loads (library svc) json_str of
                             Inl e \<Rightarrow> Inl e
                           | Inr artists_data \<Rightarrow>
                               (case iterate artists_data of
                                  Inl e \<Rightarrow> Inl e
                                | Inr items \<Rightarrow> collect (vertex_entry (library svc)) items)))))"

definition extract_with_gemini :: "services \<Rightarrow> string \<Rightarrow> exn + candidate list" where
  "extract_with_gemini svc text =
     (if \<not> is_available svc then Inr []
      else catch_all (extract_artists_from_text svc text))"

subsection \<open>The whole extraction\<close>

record extraction =
  artists :: "candidate list"
  total_found :: nat
  method_used :: string
  pattern_results :: nat
  ai_results :: nat

definition extract_artists :: "services \<Rightarrow> string \<Rightarrow> bool \<Rightarrow> real \<Rightarrow> exn + extraction" where
  \<comment> \<open>an exception is logged and raised again\<close>
  "extract_artists svc text use_ai confidence_threshold =
     (let cleaned_text = clean_text text
      in case extract_with_patterns cleaned_text of
           Inl e \<Rightarrow> Inl e
         | Inr pattern_artists \<Rightarrow>
             (case (if use_ai
                    then (case extract_with_gemini svc cleaned_text of
                            Inl e \<Rightarrow> Inl e
                          | Inr found \<Rightarrow>
                              if found = [] then extract_with_vertex_ai svc cleaned_text
                              else Inr found)
                    else Inr []) of
                Inl e \<Rightarrow> Inl e
              | Inr ai_artists \<Rightarrow>
                  (let all_artists = pattern_artists @ ai_artists;
                       final_artists = reconcile all_artists confidence_threshold
                   in Inr \<lparr>artists = final_artists,
                           total_found = length final_artists,
                           method_used = (if use_ai \<and> ai_artists \<noteq> [] then ''combined''
                                          else ''pattern_matching''),
                           pattern_results = length pattern_artists,
                           ai_results = length ai_artists\<rparr>)))"

subsection \<open>Example inputs and notions used in the proofs\<close>

definition tribute_band :: catalog_entry where
  "tribute_band = \<lparr>entry_id = ''4x7'', entry_name = ''The Beatles Tribute Band''\<rparr>"

definition daft_punk_pattern :: candidate where
  "daft_punk_pattern =
     \<lparr>name = ''Daft Punk'', confidence = 6 / 10, method =
      ''pattern_matching'', context = ''Daft Punk''\<rparr>"

definition daft_punk_gemini :: candidate where
  "daft_punk_gemini =
     \<lparr>name = ''daft punk'', confidence = 9 / 10, method = ''gemini'', context = []\<rparr>"

definition two_acts :: string where
  \<comment> \<open>two lines, \<^verbatim>\<open>Abba\<close> and \<^verbatim>\<open>ABBA rocks\<close>\<close>
  "two_acts = ''Abba'' @ [CHR 0x0A] @ ''ABBA rocks''"

definition abba_alone :: candidate where
  "abba_alone =
     \<lparr>name = ''Abba'', confidence = 1, method = ''pattern_matching'', context = ''Abba''\<rparr>"

definition spaced_lineup :: string where
  "spaced_lineup = '' Daft   Punk  and Justice ''"

definition keyed :: "(string \<times> candidate) list \<Rightarrow> bool" where
  \<comment> \<open>the dictionary invariant: keys are distinct and each is the lowered name of its value\<close>
  "keyed d \<longleftrightarrow> distinct (map fst d) \<and> list_all (\<lambda>kv. fst kv = lower (name (snd kv))) d"

definition below :: "(string \<times> candidate) list \<Rightarrow> string \<Rightarrow> real \<Rightarrow> bool" where
  \<comment> \<open>the value kept under the key, if any, has a confidence below \<open>c\<close>\<close>
  "below d k c = (case map_of d k of None \<Rightarrow> True | Some kept \<Rightarrow> confidence kept < c)"

subsection \<open>Validity of an AI candidate and failure of an AI call\<close>

text \<open>
  \<open>gemini_valid\<close> and \<open>vertex_valid\<close> say what a returned candidate looks like after the
  validation of the respective adapter. \<open>gemini_failure\<close> and \<open>vertex_failure\<close> collect the
  ways a call can fail: the service is not available (no model, no project), the provider
  call raises, the answer is empty, no bracketed array is found in it, the decoder raises
  on the array, or processing the decoded value raises.
\<close>

definition gemini_valid :: "candidate \<Rightarrow> bool" where
  "gemini_valid c \<longleftrightarrow>
     name c \<noteq> [] \<and> strip (name c) = name c \<and> 0 \<le> confidence c \<and> confidence c \<le> 1 \<and>
     strip (lower (name c)) \<notin> set excluded_terms \<and>
     \<not> re_match clock_re (name c) \<and> \<not> re_match ampm_re (strip (lower (name c))) \<and>
     \<not> re_match dollar_re (name c) \<and> \<not> contains ''dollar'' (strip (lower (name c)))"

definition vertex_valid :: "candidate \<Rightarrow> bool" where
  "vertex_valid c \<longleftrightarrow>
     name c \<noteq> [] \<and> strip (name c) = name c \<and> 0 \<le> confidence c \<and> confidence c \<le> 1"

definition gemini_failure :: "services \<Rightarrow> string \<Rightarrow> bool" where
  "gemini_failure svc input =
     (case gemini_model svc of
        None \<Rightarrow> True
      | Some generate_content \<Rightarrow>
          (case generate_content input of
             Inl e \<Rightarrow> True
           | Inr response_text \<Rightarrow>
               response_text = [] \<or>
               (case re_search array_lazy_re (strip response_text) of
                  None \<Rightarrow> True
                | Some json_str \<Rightarrow>
                    (case json_loads (library svc) json_str of
                       Inl e \<Rightarrow> True
                     | Inr artists_data \<Rightarrow>
                         (case iterate artists_data of
                            Inl e \<Rightarrow> True
                          | Inr items \<Rightarrow> isl (collect gemini_entry items))))))"

definition vertex_failure :: "services \<Rightarrow> string \<Rightarrow> bool" where
  "vertex_failure svc input =
     (case project_id svc of
        None \<Rightarrow> True
      | Some p \<Rightarrow>
          p = [] \<or>
          (case vertex_predict svc input of
             Inl e \<Rightarrow> True
           | Inr response \<Rightarrow>
               (case re_search array_greedy_re (strip response) of
                  None \<Rightarrow> True
                | Some json_str \<Rightarrow>
                    (case json_loads (library svc) json_str of
                       Inl e \<Rightarrow> True
                     | Inr artists_data \<Rightarrow>
                         (case iterate artists_data of
                            Inl e \<Rightarrow> True
                          | Inr items \<Rightarrow> isl (collect (vertex_entry (library svc)) items))))))"

subsection \<open>Example providers\<close>

definition festival_array :: string where
  \<open>festival_array = ''[{"name": "festival", "confidence": 0.9}]''\<close>

definition lineup_array :: string where
  \<open>lineup_array =
     ''[{"name": " Daft Punk ", "confidence": 1.5}, {"name": "festival", "confidence": 0.9}, {"name": "7pm Doors", "confidence": 0.8}]''\<close>

definition example_lib :: pylib where
  \<comment> \<open>the decoder on the two arrays above; the other two built-ins are not reached there\<close>
  "example_lib =
     \<lparr>json_loads = (\<lambda>s.
        if s = festival_array
        then Inr (JArr [JObj [(''name'', JStr ''festival''),
                              (''confidence'', JFloat (Finite (9 / 10)))]])
        else if s = lineup_array
        then Inr (JArr [JObj [(''name'', JStr '' Daft Punk ''),
                              (''confidence'', JFloat (Finite (15 / 10)))],
                        JObj [(''name'', JStr ''festival''),
                              (''confidence'', JFloat (Finite (9 / 10)))],
                        JObj [(''name'', JStr ''7pm Doors''),
                              (''confidence'', JFloat (Finite (8 / 10)))]])
        else Inl JSONDecodeError),
      repr_of = (\<lambda>v. []),
      float_of_str = (\<lambda>s. Inl ValueError)\<rparr>"

definition daft_punk_clamped :: candidate where
  "daft_punk_clamped =
     \<lparr>name = ''Daft Punk'', confidence = 1, method = ''gemini'', context = []\<rparr>"

definition festival_vertex :: candidate where
  "festival_vertex =
     \<lparr>name = ''festival'', confidence = 9 / 10, method = ''vertex_ai'', context = []\<rparr>"

definition loud_entry :: json where
  \<comment> \<open>the first object of \<open>lineup_array\<close>, decoded\<close>
  "loud_entry =
     JObj [(''name'', JStr '' Daft Punk ''), (''confidence'', JFloat (Finite (15 / 10)))]"

definition vertex_only :: services where
  "vertex_only =
     \<lparr>library = example_lib, gemini_model = None, project_id = Some ''festlist'',
      vertex_predict = (\<lambda>t. Inr festival_array)\<rparr>"

definition festival_gemini :: services where
  \<comment> \<open>the Gemini provider giving the reply that \<open>vertex_only\<close> gets from Vertex AI\<close>
  "festival_gemini =
     \<lparr>library = example_lib, gemini_model = Some (\<lambda>t. Inr festival_array),
      project_id = None, vertex_predict = (\<lambda>t. Inl ServiceError)\<rparr>"

definition gemini_only :: services where
  "gemini_only =
     \<lparr>library = example_lib, gemini_model = Some (\<lambda>t. Inr lineup_array),
      project_id = None, vertex_predict = (\<lambda>t. Inl ServiceError)\<rparr>"

definition offline :: services where
  \<comment> \<open>no API key and no project\<close>
  "offline =
     \<lparr>library = example_lib, gemini_model = None, project_id = None,
      vertex_predict = (\<lambda>t. Inl ServiceError)\<rparr>"

definition unreachable :: services where
  \<comment> \<open>both providers configured, both calls raise\<close>
  "unreachable =
     \<lparr>library = example_lib, gemini_model = Some (\<lambda>t. Inl ServiceError),
      project_id = Some ''festlist'', vertex_predict = (\<lambda>t. Inl ServiceError)\<rparr>"

definition garbled :: services where
  \<comment> \<open>both providers answer with a bracketed text that is not JSON\<close>
  "garbled =
     \<lparr>library = example_lib, gemini_model = Some (\<lambda>t. Inr ''Artists: [Daft Punk, Justice''),
      project_id = Some ''festlist'', vertex_predict = (\<lambda>t. Inr ''[Daft Punk; Justice]'')\<rparr>"

subsection \<open>The confidence heuristic as the specification words it\<close>

text \<open>
  Start at 0.5; add 0.2 for an uppercase first character with a lowercase character after
  it; add 0.3 when the match is the entire trimmed line; add 0.1 for three or four words;
  subtract 0.2 for a digit; for repeat occurrences (more than one occurrence in the lowered
  document) add \<open>min(0.2, occurrences * 0.05)\<close>; clamp to the unit interval.
\<close>

definition spec_pattern_score :: "string \<Rightarrow> string \<Rightarrow> string \<Rightarrow> real" where
  "spec_pattern_score match line full_text =
     (let mixed_case = (if is_upper (hd match) \<and> list_ex is_lower (tl match) then 2 / 10 else 0);
          standalone = (if match = strip line then 3 / 10 else 0);
          word_count = (if length (split match) \<in> {3, 4} then 1 / 10 else 0);
          digit = (if list_ex is_digit match then 2 / 10 else 0);
          occurrences = count (lower full_text) (lower match);
          repeats = (if occurrences > 1 then min (2 / 10) (real occurrences * (5 / 100)) else 0)
      in max 0 (min 1 (5 / 10 + mixed_case + standalone + word_count - digit + repeats)))"

subsection \<open>Notions about matches of a pattern\<close>

definition ends_with :: "(char \<Rightarrow> bool) \<Rightarrow> regex \<Rightarrow> bool" where
  "ends_with P r \<longleftrightarrow> (\<forall>st st'. st' \<in> set (ms r st) \<longrightarrow> (\<exists>c. fst st' = Some c \<and> P c))"

definition keeps_end :: "(char \<Rightarrow> bool) \<Rightarrow> regex \<Rightarrow> bool" where
  "keeps_end P r \<longleftrightarrow>
     (\<forall>st st'. st' \<in> set (ms r st) \<longrightarrow> st' = st \<or> (\<exists>c. fst st' = Some c \<and> P c))"

definition starts_with :: "(char \<Rightarrow> bool) \<Rightarrow> regex \<Rightarrow> bool" where
  "starts_with P r \<longleftrightarrow> (\<forall>p s. ms r (p, s) \<noteq> [] \<longrightarrow> (\<exists>c cs. s = c # cs \<and> P c))"

definition is_alpha :: "char \<Rightarrow> bool" where
  "is_alpha c \<longleftrightarrow> is_upper c \<or> is_lower c"

text \<open>What \<^verbatim>\<open>re.sub(r'\s+', ' ', s)\<close> computes, as a recursion on the text.\<close>

function squeeze :: "string \<Rightarrow> string" where
  "squeeze [] = []"
| "squeeze (c # cs) =
     (if is_space c then CHR '' '' # squeeze (dropWhile is_space cs) else c # squeeze cs)"
  by pat_completeness auto
termination
  by (relation "measure length") (auto simp: less_Suc_eq_le length_dropWhile_le)

definition trimmed :: "string \<Rightarrow> bool" where
  "trimmed s \<longleftrightarrow> s = [] \<or> (\<not> is_space (hd s) \<and> \<not> is_space (last s))"

section \<open>Properties\<close>

subsection \<open>Catalog matching\<close>

lemma beatles_lower: "strip (lower ''Beatles'') = ''beatles''"
  by code_simp

lemma tribute_lower: "strip (lower ''The Beatles Tribute Band'') = ''the beatles tribute band''"
  by code_simp

lemma beatles_contained: "contains ''beatles'' ''the beatles tribute band''"
  by code_simp

lemma beatles_score:
  "calculate_artist_match_score ''Beatles'' (entry_name tribute_band) = 9 / 10"
  by (simp add: calculate_artist_match_score_def tribute_band_def beatles_lower tribute_lower
      beatles_contained del: contains.simps)

lemma beatles_select: "search_artist_select ''Beatles'' [tribute_band] = Some tribute_band"
  by (simp add: search_artist_select_def beatles_score)

text \<open>
  Claim C1, as the specification states it: matching the query \<^verbatim>\<open>Beatles\<close> against the single
  catalog entry \<^verbatim>\<open>The Beatles Tribute Band\<close> yields the token-overlap score 1/4 and no match.
  The code does not get to the token overlap: the lowered query is a substring of the lowered
  entry name, so the score is 0.9. The statement is false.
\<close>

theorem matcher_rejection_example_refuted:
  "\<not> (calculate_artist_match_score ''Beatles'' (entry_name tribute_band) = 1 / 4 \<and>
      search_artist_select ''Beatles'' [tribute_band] = None)"
  by (simp add: beatles_score)

text \<open>
  Claim C1, amended: for the query \<^verbatim>\<open>Beatles\<close> and the single catalog entry
  \<^verbatim>\<open>The Beatles Tribute Band\<close> the score is 0.9, by the substring rule; it exceeds the
  acceptance threshold 0.7, and the entry is returned as the match.
\<close>

theorem matcher_substring_example:
  "calculate_artist_match_score ''Beatles'' (entry_name tribute_band) = 9 / 10 \<and>
   search_artist_select ''Beatles'' [tribute_band] = Some tribute_band"
  by (simp add: beatles_score beatles_select)

subsection \<open>Reconciliation\<close>

lemma keyed_Nil: "keyed []"
  by (simp add: keyed_def)

lemma set_update_subset: "set (AList.update k v al) \<subseteq> insert (k, v) (set al)"
  by (induction al) auto

lemma keyed_update:
  assumes "keyed d" and "k = lower (name a)"
  shows "keyed (AList.update k a d)"
proof -
  have "distinct (map fst (AList.update k a d))"
    using assms(1) by (simp add: keyed_def distinct_update)
  moreover have "\<forall>kv\<in>set (AList.update k a d). fst kv = lower (name (snd kv))"
    using assms set_update_subset [of k a d] by (auto simp: keyed_def list_all_iff)
  ultimately show ?thesis by (simp add: keyed_def list_all_iff)
qed

lemma keyed_merge_step: "keyed d \<Longrightarrow> keyed (merge_step d a)"
  by (simp add: merge_step_def Let_def keyed_update split: option.splits)

lemma keyed_foldl: "keyed d \<Longrightarrow> keyed (foldl merge_step d xs)"
  by (induction xs arbitrary: d) (simp_all add: keyed_merge_step)

lemma keyed_merged_artists: "keyed (merged_artists xs)"
  by (simp add: merged_artists_def keyed_foldl keyed_Nil)

lemma keyed_names: "keyed d \<Longrightarrow> map (\<lambda>a. lower (name a)) (map snd d) = map fst d"
  by (induction d) (auto simp: keyed_def)

lemma keyed_lookup: "keyed d \<Longrightarrow> b \<in> set (map snd d) \<Longrightarrow> map_of d (lower (name b)) = Some b"
  by (auto simp: keyed_def list_all_iff)

lemma map_of_merge_step:
  "map_of (merge_step d x) k =
     (if lower (name x) = k
      then (case map_of d k of
              Some kept \<Rightarrow> if confidence x > confidence kept then Some x else Some kept
            | None \<Rightarrow> Some x)
      else map_of d k)"
  by (auto simp: merge_step_def Let_def update_conv' split: option.splits)

lemma foldl_keeps_highest:
  assumes "map_of d k = Some a"
    and "\<forall>b\<in>set xs. lower (name b) = k \<longrightarrow> confidence b \<le> confidence a"
  shows "map_of (foldl merge_step d xs) k = Some a"
  using assms
proof (induction xs arbitrary: d)
  case Nil
  then show ?case by simp
next
  case (Cons x xs)
  have "map_of (merge_step d x) k = Some a"
    using Cons.prems by (auto simp: map_of_merge_step)
  then show ?case using Cons by simp
qed

lemma below_merge_step:
  assumes "below d k c" and "lower (name x) = k \<longrightarrow> confidence x < c"
  shows "below (merge_step d x) k c"
  using assms by (simp add: below_def map_of_merge_step split: option.splits)

lemma below_foldl:
  assumes "below d k c" and "\<forall>b\<in>set xs. lower (name b) = k \<longrightarrow> confidence b < c"
  shows "below (foldl merge_step d xs) k c"
  using assms
proof (induction xs arbitrary: d)
  case Nil
  then show ?case by simp
next
  case (Cons x xs)
  have "below (merge_step d x) k c"
    using Cons.prems by (intro below_merge_step) simp_all
  then show ?case using Cons by simp
qed

lemma merged_first_highest:
  assumes "\<forall>b\<in>set earlier. lower (name b) = lower (name a) \<longrightarrow> confidence b < confidence a"
    and "\<forall>b\<in>set later. lower (name b) = lower (name a) \<longrightarrow> confidence b \<le> confidence a"
  shows "map_of (merged_artists (earlier @ a # later)) (lower (name a)) = Some a"
proof -
  let ?k = "lower (name a)"
  let ?d = "foldl merge_step [] earlier"
  have "below ?d ?k (confidence a)"
    using assms(1) by (intro below_foldl) (simp_all add: below_def)
  then have "map_of (merge_step ?d a) ?k = Some a"
    by (simp add: below_def map_of_merge_step split: option.splits)
  then have "map_of (foldl merge_step (merge_step ?d a) later) ?k = Some a"
    using assms(2) by (rule foldl_keeps_highest)
  then show ?thesis by (simp add: merged_artists_def)
qed

lemma set_reconcile:
  "set (reconcile xs t) = {a \<in> set (map snd (merged_artists xs)). t \<le> confidence a}"
  by (auto simp: reconcile_def by_confidence_desc_def)

lemma daft_punk_keys: "lower (name daft_punk_pattern) = lower (name daft_punk_gemini)"
  by code_simp

text \<open>
  Claim C3 (merge rule). Let \<open>a\<close> be a candidate of the concatenated input such that every
  earlier candidate of the same lowered name has a strictly smaller confidence and every
  later one has a confidence that is not greater. Then the merged dictionary holds \<open>a\<close>
  itself under that name, so the entry has the confidence and the method tag of \<open>a\<close>; no
  other candidate of that name is in the output, and \<open>a\<close> is in the output when it reaches
  the threshold. With two candidates of confidences \<open>c1 < c2\<close>, in either order, \<open>a\<close> is the
  one of confidence \<open>c2\<close>; among candidates of equal confidence, \<open>a\<close> is the first.
\<close>

theorem reconcile_keeps_first_highest:
  assumes "\<forall>b\<in>set earlier. lower (name b) = lower (name a) \<longrightarrow> confidence b < confidence a"
    and "\<forall>b\<in>set later. lower (name b) = lower (name a) \<longrightarrow> confidence b \<le> confidence a"
  shows "map_of (merged_artists (earlier @ a # later)) (lower (name a)) = Some a \<and>
         (\<forall>b\<in>set (reconcile (earlier @ a # later) t). lower (name b) = lower (name a) \<longrightarrow> b = a) \<and>
         (t \<le> confidence a \<longrightarrow> a \<in> set (reconcile (earlier @ a # later) t))"
proof -
  let ?xs = "earlier @ a # later"
  have m: "map_of (merged_artists ?xs) (lower (name a)) = Some a"
    using assms by (rule merged_first_highest)
  have u: "b = a" if "b \<in> set (reconcile ?xs t)" and "lower (name b) = lower (name a)" for b
  proof -
    from that(1) have "b \<in> set (map snd (merged_artists ?xs))"
      by (simp add: set_reconcile)
    then have "map_of (merged_artists ?xs) (lower (name b)) = Some b"
      by (rule keyed_lookup [OF keyed_merged_artists])
    with m that(2) show ?thesis by (metis option.inject)
  qed
  have "a \<in> set (map snd (merged_artists ?xs))"
    using map_of_SomeD [OF m] by force
  then have "t \<le> confidence a \<longrightarrow> a \<in> set (reconcile ?xs t)"
    by (simp add: set_reconcile)
  with m u show ?thesis by blast
qed

theorem reconcile_keeps_first_highest_witness:
  "map_of (merged_artists [daft_punk_pattern, daft_punk_gemini]) (lower (name daft_punk_gemini))
     = Some daft_punk_gemini \<and>
   daft_punk_gemini \<in> set (reconcile [daft_punk_pattern, daft_punk_gemini] (1 / 2))"
proof -
  have earlier: "\<forall>b\<in>set [daft_punk_pattern].
      lower (name b) = lower (name daft_punk_gemini) \<longrightarrow> confidence b < confidence daft_punk_gemini"
    by (simp add: daft_punk_pattern_def daft_punk_gemini_def)
  have later: "\<forall>b\<in>set [].
      lower (name b) = lower (name daft_punk_gemini) \<longrightarrow> confidence b \<le> confidence daft_punk_gemini"
    by simp
  have "1 / 2 \<le> confidence daft_punk_gemini"
    by (simp add: daft_punk_gemini_def)
  with reconcile_keeps_first_highest [OF earlier later, of "1 / 2"] show ?thesis
    by simp
qed

text \<open>
  Claim C6 (dedup invariant): for every list of candidates and every threshold, the lowered
  names of the reconciled list are pairwise different.
\<close>

theorem reconcile_no_duplicate_names:
  "distinct (map (\<lambda>a. lower (name a)) (reconcile all_artists confidence_threshold))"
proof -
  let ?vs = "map snd (merged_artists all_artists)"
  have "distinct (map (\<lambda>a. lower (name a)) ?vs)"
    using keyed_merged_artists [of all_artists]
    by (simp only: keyed_names) (simp add: keyed_def)
  then have "distinct (map (\<lambda>a. lower (name a))
      (filter (\<lambda>a. confidence_threshold \<le> confidence a) ?vs))"
    by (rule distinct_map_filter)
  then show ?thesis
    by (simp add: reconcile_def by_confidence_desc_def distinct_map)
qed

theorem reconcile_no_duplicate_names_witness:
  "distinct (map (\<lambda>a. lower (name a)) (reconcile [daft_punk_pattern, daft_punk_gemini] (1 / 2)))"
  by (rule reconcile_no_duplicate_names)

text \<open>
  Claim C7 (confidence floor): for every list of candidates and every threshold, each entry
  of the reconciled list has a confidence of at least the threshold.
\<close>

theorem reconcile_confidence_floor:
  "\<forall>a\<in>set (reconcile all_artists confidence_threshold). confidence_threshold \<le> confidence a"
  by (simp add: set_reconcile)

lemma reconcile_daft_punk:
  "reconcile [daft_punk_pattern, daft_punk_gemini] (1 / 2) = [daft_punk_gemini]"
  by (simp add: reconcile_def by_confidence_desc_def merged_artists_def merge_step_def
      daft_punk_keys) (simp add: daft_punk_gemini_def daft_punk_pattern_def)

theorem reconcile_confidence_floor_witness:
  "daft_punk_gemini \<in> set (reconcile [daft_punk_pattern, daft_punk_gemini] (1 / 2)) \<and>
   1 / 2 \<le> confidence daft_punk_gemini"
  using reconcile_confidence_floor [of "[daft_punk_pattern, daft_punk_gemini]" "1 / 2"]
  by (simp add: reconcile_daft_punk)

subsection \<open>Matches of a pattern\<close>

declare ms.simps(7,8) [simp del]

lemma ms_Star_cases:
  assumes "st' \<in> set (ms (Star a) st)"
  shows "st' = st \<or> (\<exists>st1\<in>set (ms a st).
           length (snd st1) < length (snd st) \<and> st' \<in> set (ms (Star a) st1))"
proof -
  from assms have "st' \<in> set (concat (map (\<lambda>st1. if length (snd st1) < length (snd st)
      then ms (Star a) st1 else []) (ms a st)) @ [st])"
    by (simp only: ms.simps(7) [of a st])
  then show ?thesis by (auto split: if_splits)
qed

lemma ms_Lazy_cases:
  assumes "st' \<in> set (ms (Lazy a) st)"
  shows "st' = st \<or> (\<exists>st1\<in>set (ms a st).
           length (snd st1) < length (snd st) \<and> st' \<in> set (ms (Lazy a) st1))"
proof -
  from assms have "st' \<in> set (st # concat (map (\<lambda>st1. if length (snd st1) < length (snd st)
      then ms (Lazy a) st1 else []) (ms a st)))"
    by (simp only: ms.simps(8) [of a st])
  then show ?thesis by (auto split: if_splits)
qed

lemma ms_consumes:
  "st' \<in> set (ms r st) \<Longrightarrow>
   \<exists>u. snd st = u @ snd st' \<and> fst st' = (if u = [] then fst st else Some (last u))"
proof (induction r st arbitrary: st' rule: ms.induct)
  case (1 st)
  then show ?case by simp
next
  case (2 P p)
  then show ?case by simp
next
  case (3 P p c cs)
  then have "st' = (Some c, cs)" by (simp split: if_splits)
  then have "snd (p, c # cs) = [c] @ snd st' \<and> fst st' = (if [c] = [] then p else Some (last [c]))"
    by simp
  then show ?case by (metis fst_conv)
next
  case (4 p s)
  then show ?case by (simp split: if_splits)
next
  case (5 a b st)
  from "5.prems" obtain st1 where st1: "st1 \<in> set (ms a st)" "st' \<in> set (ms b st1)"
    by auto
  from "5.IH"(1) [OF st1(1)] obtain u1 where
    u1: "snd st = u1 @ snd st1" "fst st1 = (if u1 = [] then fst st else Some (last u1))"
    by blast
  from "5.IH"(2) [OF st1(1) st1(2)] obtain u2 where
    u2: "snd st1 = u2 @ snd st'" "fst st' = (if u2 = [] then fst st1 else Some (last u2))"
    by blast
  have "snd st = (u1 @ u2) @ snd st' \<and>
        fst st' = (if u1 @ u2 = [] then fst st else Some (last (u1 @ u2)))"
    using u1 u2 by simp
  then show ?case by blast
next
  case (6 a b st)
  from "6.prems" have "st' \<in> set (ms a st) \<or> st' \<in> set (ms b st)"
    by simp
  then show ?case using "6.IH" by blast
next
  case (7 a st)
  show ?case
  proof (cases "st' = st")
    case True
    then show ?thesis by simp
  next
    case False
    with ms_Star_cases [OF "7.prems"] obtain st1 where st1: "st1 \<in> set (ms a st)"
      "length (snd st1) < length (snd st)" "st' \<in> set (ms (Star a) st1)"
      by blast
    from "7.IH"(1) [OF st1(1)] obtain u1 where
      u1: "snd st = u1 @ snd st1" "fst st1 = (if u1 = [] then fst st else Some (last u1))"
      by blast
    from "7.IH"(2) [OF st1(1) st1(2) st1(3)] obtain u2 where
      u2: "snd st1 = u2 @ snd st'" "fst st' = (if u2 = [] then fst st1 else Some (last u2))"
      by blast
    have "snd st = (u1 @ u2) @ snd st' \<and>
          fst st' = (if u1 @ u2 = [] then fst st else Some (last (u1 @ u2)))"
      using u1 u2 by simp
    then show ?thesis by blast
  qed
next
  case (8 a st)
  show ?case
  proof (cases "st' = st")
    case True
    then show ?thesis by simp
  next
    case False
    with ms_Lazy_cases [OF "8.prems"] obtain st1 where st1: "st1 \<in> set (ms a st)"
      "length (snd st1) < length (snd st)" "st' \<in> set (ms (Lazy a) st1)"
      by blast
    from "8.IH"(1) [OF st1(1)] obtain u1 where
      u1: "snd st = u1 @ snd st1" "fst st1 = (if u1 = [] then fst st else Some (last u1))"
      by blast
    from "8.IH"(2) [OF st1(1) st1(2) st1(3)] obtain u2 where
      u2: "snd st1 = u2 @ snd st'" "fst st' = (if u2 = [] then fst st1 else Some (last u2))"
      by blast
    have "snd st = (u1 @ u2) @ snd st' \<and>
          fst st' = (if u1 @ u2 = [] then fst st else Some (last (u1 @ u2)))"
      using u1 u2 by simp
    then show ?thesis by blast
  qed
qed

lemma ms_length: "st' \<in> set (ms r st) \<Longrightarrow> length (snd st') \<le> length (snd st)"
  using ms_consumes [of st' r st] by auto

lemma ends_with_Sym: "(\<And>c. Q c \<Longrightarrow> P c) \<Longrightarrow> ends_with P (Sym Q)"
proof -
  assume q: "\<And>c. Q c \<Longrightarrow> P c"
  have "\<exists>c. fst st' = Some c \<and> P c" if "st' \<in> set (ms (Sym Q) st)" for st st'
  proof (cases st)
    case (Pair p s)
    with that q show ?thesis by (cases s) (auto split: if_splits)
  qed
  then show ?thesis unfolding ends_with_def by blast
qed

lemma ends_with_keeps: "ends_with P r \<Longrightarrow> keeps_end P r"
  unfolding ends_with_def keeps_end_def by blast

lemma keeps_end_Eps: "keeps_end P Eps"
  unfolding keeps_end_def by simp

lemma keeps_end_Bnd: "keeps_end P Bnd"
proof -
  have "st' = st" if "st' \<in> set (ms Bnd st)" for st st'
    using that by (cases st) (auto split: if_splits)
  then show ?thesis unfolding keeps_end_def by blast
qed

lemma ends_with_Seq_right: "ends_with P b \<Longrightarrow> ends_with P (Seq a b)"
  unfolding ends_with_def by (simp del: split_paired_All split_paired_Ex) blast

lemma ends_with_Seq_left: "ends_with P a \<Longrightarrow> keeps_end P b \<Longrightarrow> ends_with P (Seq a b)"
proof -
  assume a: "ends_with P a" and b: "keeps_end P b"
  have "\<exists>c. fst st' = Some c \<and> P c" if "st' \<in> set (ms (Seq a b) st)" for st st'
  proof -
    from that obtain st1 where st1: "st1 \<in> set (ms a st)" "st' \<in> set (ms b st1)"
      by auto
    from a st1(1) have "\<exists>c. fst st1 = Some c \<and> P c"
      unfolding ends_with_def by blast
    moreover from b st1(2) have "st' = st1 \<or> (\<exists>c. fst st' = Some c \<and> P c)"
      unfolding keeps_end_def by blast
    ultimately show ?thesis by blast
  qed
  then show ?thesis unfolding ends_with_def by blast
qed

lemma keeps_end_Seq: "keeps_end P a \<Longrightarrow> keeps_end P b \<Longrightarrow> keeps_end P (Seq a b)"
proof -
  assume a: "keeps_end P a" and b: "keeps_end P b"
  have "st' = st \<or> (\<exists>c. fst st' = Some c \<and> P c)" if "st' \<in> set (ms (Seq a b) st)" for st st'
  proof -
    from that obtain st1 where st1: "st1 \<in> set (ms a st)" "st' \<in> set (ms b st1)"
      by auto
    from a st1(1) have "st1 = st \<or> (\<exists>c. fst st1 = Some c \<and> P c)"
      unfolding keeps_end_def by blast
    moreover from b st1(2) have "st' = st1 \<or> (\<exists>c. fst st' = Some c \<and> P c)"
      unfolding keeps_end_def by blast
    ultimately show ?thesis by blast
  qed
  then show ?thesis unfolding keeps_end_def by blast
qed

lemma keeps_end_Star_aux:
  assumes "keeps_end P a"
  shows "st' \<in> set (ms (Star a) st) \<Longrightarrow> st' = st \<or> (\<exists>c. fst st' = Some c \<and> P c)"
proof (induction "length (snd st)" arbitrary: st rule: less_induct)
  case less
  show ?case
  proof (cases "st' = st")
    case True
    then show ?thesis by simp
  next
    case False
    with ms_Star_cases [OF less.prems] obtain st1 where st1: "st1 \<in> set (ms a st)"
      "length (snd st1) < length (snd st)" "st' \<in> set (ms (Star a) st1)"
      by blast
    from less.hyps [OF st1(2) st1(3)] have "st' = st1 \<or> (\<exists>c. fst st' = Some c \<and> P c)" .
    moreover from assms st1(1) have "st1 = st \<or> (\<exists>c. fst st1 = Some c \<and> P c)"
      unfolding keeps_end_def by blast
    ultimately show ?thesis using st1(2) by blast
  qed
qed

lemma keeps_end_Star: "keeps_end P a \<Longrightarrow> keeps_end P (Star a)"
  using keeps_end_Star_aux [of P a] unfolding keeps_end_def by blast

lemma ends_with_plus: "ends_with P a \<Longrightarrow> ends_with P (plus a)"
  by (simp add: plus_def ends_with_Seq_left keeps_end_Star ends_with_keeps)

lemma ends_with_capword: "ends_with is_alpha capword"
  unfolding capword_def
  by (intro ends_with_Seq_right ends_with_plus ends_with_Sym) (simp add: is_alpha_def)

lemma starts_with_Sym: "starts_with P (Sym P)"
proof -
  have "\<exists>c cs. s = c # cs \<and> P c" if "ms (Sym P) (p, s) \<noteq> []" for p s
    using that by (cases s) (auto split: if_splits)
  then show ?thesis unfolding starts_with_def by blast
qed

lemma starts_with_Seq: "starts_with P a \<Longrightarrow> starts_with P (Seq a b)"
proof -
  assume a: "starts_with P a"
  have "\<exists>c cs. s = c # cs \<and> P c" if "ms (Seq a b) (p, s) \<noteq> []" for p s
  proof -
    from that have "ms a (p, s) \<noteq> []" by auto
    with a show ?thesis unfolding starts_with_def by blast
  qed
  then show ?thesis unfolding starts_with_def by blast
qed

lemma starts_with_Bnd: "starts_with P r \<Longrightarrow> starts_with P (Seq Bnd r)"
proof -
  assume r: "starts_with P r"
  have "\<exists>c cs. s = c # cs \<and> P c" if "ms (Seq Bnd r) (p, s) \<noteq> []" for p s
  proof -
    from that have "ms r (p, s) \<noteq> []" by (auto split: if_splits)
    with r show ?thesis unfolding starts_with_def by blast
  qed
  then show ?thesis unfolding starts_with_def by blast
qed

lemma starts_with_capword: "starts_with is_upper capword"
  unfolding capword_def by (intro starts_with_Seq starts_with_Sym)

lemma artist_patterns_shape:
  "r \<in> set artist_patterns \<Longrightarrow> starts_with is_upper r \<and> ends_with is_alpha r"
proof -
  have tail: "keeps_end is_alpha (Seq Bnd Eps)"
    by (intro keeps_end_Seq keeps_end_Bnd keeps_end_Eps)
  have up: "ends_with is_alpha (plus (Sym is_upper))"
    by (intro ends_with_plus ends_with_Sym) (simp add: is_alpha_def)
  have grp: "ends_with is_alpha (Seq x (Seq capword Eps))" for x
    by (rule ends_with_Seq_right, rule ends_with_Seq_left [OF ends_with_capword keeps_end_Eps])
  have grp3: "ends_with is_alpha (Seq x (Seq y (Seq z (Seq capword Eps))))" for x y z
    by (rule ends_with_Seq_right, rule ends_with_Seq_right, rule grp)
  have p1: "ends_with is_alpha (seqs [Bnd, capword, Star (seqs [plus space, capword]), Bnd])"
    unfolding seqs_def foldr.simps o_apply id_apply
    by (rule ends_with_Seq_right, rule ends_with_Seq_left [OF ends_with_capword],
        rule keeps_end_Seq [OF keeps_end_Star [OF ends_with_keeps [OF grp]] tail])
  have p2: "ends_with is_alpha (seqs [Bnd, plus (Sym is_upper), Bnd])"
    unfolding seqs_def foldr.simps o_apply id_apply
    by (rule ends_with_Seq_right, rule ends_with_Seq_left [OF up tail])
  have p34: "ends_with is_alpha
      (seqs [Bnd, capword, plus (seqs [plus space, x, plus space, capword]), Bnd])" for x
    unfolding seqs_def foldr.simps o_apply id_apply
    by (rule ends_with_Seq_right, rule ends_with_Seq_right,
        rule ends_with_Seq_left [OF ends_with_plus [OF grp3] tail])
  have s1: "starts_with is_upper (seqs (Bnd # capword # rs))" for rs
    unfolding seqs_def foldr.simps o_apply
    by (intro starts_with_Bnd starts_with_Seq starts_with_capword)
  have s2: "starts_with is_upper (seqs (Bnd # plus (Sym is_upper) # rs))" for rs
    unfolding seqs_def foldr.simps o_apply plus_def
    by (intro starts_with_Bnd starts_with_Seq starts_with_Sym)
  assume "r \<in> set artist_patterns"
  then show ?thesis
    unfolding artist_patterns_def using p1 p2 p34 s1 s2 by auto
qed

lemma findall_scan_match:
  "m \<in> set (findall_scan r p s) \<Longrightarrow>
   \<exists>p0 s0 st'. st' \<in> set (ms r (p0, s0)) \<and> s0 = m @ snd st' \<and> m \<noteq> [] \<and>
      fst st' = Some (last m)"
proof (induction r p s rule: findall_scan.induct)
  case (1 r p)
  then show ?case by simp
next
  case (2 r p c cs)
  show ?case
  proof (cases "ms r (p, c # cs)")
    case Nil
    with 2 show ?thesis by simp
  next
    case (Cons st' rest)
    obtain p' s' where st': "st' = (p', s')" by (cases st')
    show ?thesis
    proof (cases "length s' < length (c # cs)")
      case False
      with 2 Cons st' show ?thesis by simp
    next
      case True
      let ?m = "take (length (c # cs) - length s') (c # cs)"
      have mem: "st' \<in> set (ms r (p, c # cs))" by (simp add: Cons)
      from ms_consumes [OF mem] obtain u where
        u: "c # cs = u @ s'" "p' = (if u = [] then p else Some (last u))"
        by (auto simp: st')
      from u(1) True have "u \<noteq> []" by auto
      moreover from u(1) have "?m = u"
        by (metis add_diff_cancel_right' append_eq_conv_conj length_append)
      ultimately have here: "st' \<in> set (ms r (p, c # cs)) \<and> c # cs = ?m @ snd st' \<and>
          ?m \<noteq> [] \<and> fst st' = Some (last ?m)"
        using mem u st' by simp
      from "2.prems" Cons st' True have "m = ?m \<or> m \<in> set (findall_scan r p' s')"
        by simp
      then show ?thesis
      proof
        assume "m = ?m"
        with here show ?thesis by blast
      next
        assume "m \<in> set (findall_scan r p' s')"
        then show ?thesis using "2.IH"(2) [OF Cons st' [symmetric] True] by simp
      qed
    qed
  qed
qed

lemma strip_unchanged:
  assumes "s \<noteq> []" and "\<not> is_space (hd s)" and "\<not> is_space (last s)"
  shows "strip s = s"
proof -
  have "dropWhile is_space s = s"
    using assms(1,2) by (cases s) auto
  moreover have "dropWhile is_space (rev s) = rev s"
    using assms(1,3) by (cases "rev s") (auto simp: last_rev [symmetric] hd_rev)
  ultimately show ?thesis by (simp add: strip_def)
qed

lemma alpha_not_space: "is_alpha c \<Longrightarrow> \<not> is_space c"
  by (auto simp: is_alpha_def is_upper_def is_lower_def is_space_def upper_chars_def
      lower_chars_def)

lemma artist_match_stripped:
  assumes "r \<in> set artist_patterns" and "m \<in> set (re_findall r line)"
  shows "m \<noteq> [] \<and> strip m = m"
proof -
  from assms(2) obtain p0 s0 st' where
    st': "st' \<in> set (ms r (p0, s0))" "s0 = m @ snd st'" "m \<noteq> []" "fst st' = Some (last m)"
    using findall_scan_match unfolding re_findall_def by blast
  from artist_patterns_shape [OF assms(1)] have
    shape: "starts_with is_upper r" "ends_with is_alpha r"
    by simp_all
  from st'(1) have "ms r (p0, s0) \<noteq> []" by auto
  with shape(1) obtain c cs where "s0 = c # cs" "is_upper c"
    unfolding starts_with_def by blast
  with st'(2,3) have "is_upper (hd m)"
    by (cases m) auto
  then have first: "\<not> is_space (hd m)"
    by (simp add: alpha_not_space is_alpha_def)
  from shape(2) st'(1) obtain d where "fst st' = Some d" "is_alpha d"
    unfolding ends_with_def by blast
  with st'(4) have "\<not> is_space (last m)"
    by (simp add: alpha_not_space)
  with first st'(3) show ?thesis
    by (simp add: strip_unchanged)
qed

subsection \<open>Text cleaning\<close>

lemma set_sub_scan: "set (sub_scan r repl p s) \<subseteq> set s \<union> set repl"
proof (induction r repl p s rule: sub_scan.induct)
  case (1 r repl p)
  then show ?case by simp
next
  case (2 r repl p c cs)
  show ?case
  proof (cases "ms r (p, c # cs)")
    case Nil
    with "2.IH"(1) show ?thesis by auto
  next
    case (Cons st' rest)
    obtain p' s' where st': "st' = (p', s')" by (cases st')
    show ?thesis
    proof (cases "length s' < length (c # cs)")
      case False
      have "set (sub_scan r repl (Some c) cs) \<subseteq> set cs \<union> set repl"
        using "2.IH"(3) [OF Cons st' [symmetric] False] .
      then show ?thesis
        using Cons st' False by auto
    next
      case True
      have "st' \<in> set (ms r (p, c # cs))" by (simp add: Cons)
      from ms_consumes [OF this] obtain u where "c # cs = u @ s'"
        by (auto simp: st')
      then have "set s' \<subseteq> set (c # cs)"
        by (metis set_append sup_ge2)
      moreover have "set (sub_scan r repl p' s') \<subseteq> set s' \<union> set repl"
        using "2.IH"(2) [OF Cons st' [symmetric] True] .
      ultimately show ?thesis
        using Cons st' True by auto
    qed
  qed
qed

lemma set_re_sub_delete: "set (re_sub r [] s) \<subseteq> set s"
  using set_sub_scan [of r "[]" None s] by (simp add: re_sub_def)

lemma set_removals: "set (removals s) \<subseteq> set s"
  unfolding removals_def Let_def
  by (meson set_re_sub_delete subset_trans)

lemma set_strip: "set (strip s) \<subseteq> set s"
proof
  fix x
  assume "x \<in> set (strip s)"
  then have "x \<in> set (dropWhile is_space (rev (dropWhile is_space s)))"
    by (simp add: strip_def)
  then have "x \<in> set (rev (dropWhile is_space s))"
    by (rule set_dropWhileD)
  then have "x \<in> set (dropWhile is_space s)"
    by simp
  then show "x \<in> set s"
    by (rule set_dropWhileD)
qed

lemma star_space_hd:
  "ms (Star space) (p, s) \<noteq> [] \<and> snd (hd (ms (Star space) (p, s))) = dropWhile is_space s"
proof (induction s arbitrary: p)
  case Nil
  show ?case unfolding space_def by (simp add: ms.simps(7) [of "Sym is_space" "(p, [])"])
next
  case (Cons c cs)
  show ?case
  proof (cases "is_space c")
    case True
    then have "ms (Star space) (p, c # cs) = ms (Star space) (Some c, cs) @ [(p, c # cs)]"
      unfolding space_def by (simp add: ms.simps(7) [of "Sym is_space" "(p, c # cs)"])
    with Cons [of "Some c"] True show ?thesis by simp
  next
    case False
    then have "ms (Star space) (p, c # cs) = [(p, c # cs)]"
      unfolding space_def by (simp add: ms.simps(7) [of "Sym is_space" "(p, c # cs)"])
    with False show ?thesis by simp
  qed
qed

lemma ms_ws_re:
  "ms ws_re (p, c # cs) = (if is_space c then ms (Star space) (Some c, cs) else [])"
  by (simp add: ws_re_def plus_def space_def)

lemma sub_scan_ws: "sub_scan ws_re '' '' p s = squeeze s"
proof (induction s arbitrary: p rule: squeeze.induct)
  case 1
  show ?case by simp
next
  case (2 c cs)
  show ?case
  proof (cases "is_space c")
    case False
    with 2 show ?thesis by (simp add: ms_ws_re)
  next
    case True
    obtain p' s' rest where h: "ms (Star space) (Some c, cs) = (p', s') # rest"
      using star_space_hd [of "Some c" cs] by (cases "ms (Star space) (Some c, cs)") auto
    with star_space_hd [of "Some c" cs] have s': "s' = dropWhile is_space cs"
      by simp
    have "length s' < length (c # cs)"
      using length_dropWhile_le [of is_space cs] by (simp add: s')
    then have "sub_scan ws_re '' '' p (c # cs) = '' '' @ sub_scan ws_re '' '' p' s'"
      using True h by (simp add: ms_ws_re)
    with True "2.IH"(1) [of p'] s' show ?thesis by simp
  qed
qed

lemma collapse_ws_squeeze: "collapse_ws s = squeeze (strip s)"
  by (simp add: collapse_ws_def re_sub_def sub_scan_ws)

lemma squeeze_spaces: "c \<in> set (squeeze s) \<Longrightarrow> is_space c \<Longrightarrow> c = CHR '' ''"
  by (induction s rule: squeeze.induct) (auto split: if_splits)

lemma split_on_absent: "d \<notin> set s \<Longrightarrow> split_on d s = [s]"
  by (induction s) auto

lemma clean_text_subset: "set (clean_text s) \<subseteq> set (squeeze (strip s))"
  unfolding clean_text_def collapse_ws_squeeze [symmetric]
  using set_strip set_removals by (meson subset_trans)

text \<open>
  Claim C10 (cleaned text is one line). For every text, the only whitespace character in
  the cleaned text is the space: the first pass replaces every run of whitespace, line
  breaks included, by one space, and the later passes only delete. So the cleaned text has
  no newline, and splitting it at newlines, as the pattern extractor does, gives the
  cleaned text as its single line.
\<close>

theorem clean_text_single_line:
  "(\<forall>c\<in>set (clean_text text). is_space c \<longrightarrow> c = CHR '' '') \<and>
   CHR 0x0A \<notin> set (clean_text text) \<and>
   split_on CHR 0x0A (clean_text text) = [clean_text text]"
proof -
  have sp: "\<forall>c\<in>set (clean_text text). is_space c \<longrightarrow> c = CHR '' ''"
    using clean_text_subset [of "text"] squeeze_spaces by blast
  have "is_space CHR 0x0A" by (simp add: is_space_def)
  with sp have nl: "CHR 0x0A \<notin> set (clean_text text)" by auto
  with sp show ?thesis by (simp add: split_on_absent)
qed

theorem clean_text_single_line_witness:
  "clean_text two_acts = ''Abba ABBA rocks'' \<and>
   CHR 0x0A \<in> set two_acts \<and>
   CHR 0x0A \<notin> set (clean_text two_acts) \<and>
   split_on CHR 0x0A (clean_text two_acts) = [clean_text two_acts]"
proof -
  have "clean_text two_acts = ''Abba ABBA rocks''"
    unfolding two_acts_def by code_simp
  moreover have "CHR 0x0A \<in> set two_acts"
    by (simp add: two_acts_def)
  ultimately show ?thesis
    using clean_text_single_line [of two_acts] by blast
qed

lemma dropWhile_hd: "dropWhile P s = [] \<or> \<not> P (hd (dropWhile P s))"
  using hd_dropWhile [of P s] by blast

lemma last_dropWhile: "dropWhile P s \<noteq> [] \<Longrightarrow> last (dropWhile P s) = last s"
  by (induction s) (auto split: if_splits)

lemma trimmed_strip: "trimmed (strip s)"
proof -
  let ?a = "dropWhile is_space s"
  let ?b = "dropWhile is_space (rev ?a)"
  show ?thesis
  proof (cases "?b = []")
    case True
    then show ?thesis by (simp add: trimmed_def strip_def)
  next
    case False
    then have a: "?a \<noteq> []"
      by (metis dropWhile.simps(1) rev_is_Nil_conv)
    have "\<not> is_space (hd ?b)"
      using dropWhile_hd [of is_space "rev ?a"] False by blast
    then have l: "\<not> is_space (last (rev ?b))"
      using False by (simp add: last_rev)
    have "last ?b = last (rev ?a)"
      using False by (rule last_dropWhile)
    also have "\<dots> = hd ?a"
      using a by (simp add: last_rev)
    finally have "hd (rev ?b) = hd ?a"
      using False by (simp add: hd_rev)
    moreover have "\<not> is_space (hd ?a)"
      using dropWhile_hd [of is_space s] a by blast
    ultimately show ?thesis
      using l by (simp add: trimmed_def strip_def)
  qed
qed

lemma strip_trimmed: "trimmed s \<Longrightarrow> strip s = s"
proof (cases "s = []")
  case True
  then show ?thesis by (simp add: strip_def)
next
  case False
  assume "trimmed s"
  with False have h: "\<not> is_space (hd s)" "\<not> is_space (last s)"
    by (simp_all add: trimmed_def)
  have "dropWhile is_space s = s"
    using False h(1) by (cases s) auto
  moreover have "dropWhile is_space (rev s) = rev s"
    using False h(2) by (cases "rev s") (auto simp: last_rev [symmetric] hd_rev)
  ultimately show ?thesis by (simp add: strip_def)
qed

lemma strip_strip: "strip (strip s) = strip s"
  by (rule strip_trimmed [OF trimmed_strip])

lemma squeeze_hd: "s \<noteq> [] \<Longrightarrow> \<not> is_space (hd s) \<Longrightarrow> squeeze s \<noteq> [] \<and> hd (squeeze s) = hd s"
  by (cases s) auto

lemma squeeze_last:
  "s \<noteq> [] \<Longrightarrow> \<not> is_space (last s) \<Longrightarrow> squeeze s \<noteq> [] \<and> last (squeeze s) = last s"
proof (induction s rule: squeeze.induct)
  case 1
  then show ?case by simp
next
  case (2 c cs)
  show ?case
  proof (cases "is_space c")
    case True
    with "2.prems" have cs: "cs \<noteq> []" "\<not> is_space (last cs)"
      by (auto split: if_splits)
    then have d: "dropWhile is_space cs \<noteq> []"
      by (metis dropWhile_eq_Nil_conv last_in_set)
    then have "last (dropWhile is_space cs) = last cs"
      by (rule last_dropWhile)
    with "2.IH"(1) [OF True d] cs True show ?thesis by simp
  next
    case False
    show ?thesis
    proof (cases "cs = []")
      case True
      with False show ?thesis by simp
    next
      case ne: False
      with "2.prems" have "\<not> is_space (last cs)" by simp
      with "2.IH"(2) [OF False ne] False ne show ?thesis by simp
    qed
  qed
qed

lemma trimmed_squeeze: "trimmed s \<Longrightarrow> trimmed (squeeze s)"
proof (cases "s = []")
  case True
  then show ?thesis by (simp add: trimmed_def)
next
  case False
  assume "trimmed s"
  with False have h: "\<not> is_space (hd s)" "\<not> is_space (last s)"
    by (simp_all add: trimmed_def)
  with False squeeze_hd [of s] squeeze_last [of s] show ?thesis
    by (simp add: trimmed_def)
qed

lemma dropWhile_squeeze:
  "s = [] \<or> \<not> is_space (hd s) \<Longrightarrow> dropWhile is_space (squeeze s) = squeeze s"
  by (cases s) auto

lemma squeeze_squeeze: "squeeze (squeeze s) = squeeze s"
proof (induction s rule: squeeze.induct)
  case 1
  show ?case by simp
next
  case (2 c cs)
  show ?case
  proof (cases "is_space c")
    case True
    have "dropWhile is_space (squeeze (dropWhile is_space cs)) = squeeze (dropWhile is_space cs)"
      by (rule dropWhile_squeeze) (rule dropWhile_hd)
    with True "2.IH"(1) show ?thesis by (simp add: is_space_def)
  next
    case False
    with "2.IH"(2) show ?thesis by simp
  qed
qed

lemma trimmed_collapse_ws: "trimmed (collapse_ws s)"
  by (simp add: collapse_ws_squeeze trimmed_squeeze trimmed_strip)

lemma collapse_ws_idem: "collapse_ws (collapse_ws s) = collapse_ws s"
proof -
  have "strip (collapse_ws s) = collapse_ws s"
    by (rule strip_trimmed [OF trimmed_collapse_ws])
  then have "collapse_ws (collapse_ws s) = squeeze (collapse_ws s)"
    by (simp add: collapse_ws_squeeze [of "collapse_ws s"])
  then show ?thesis
    by (simp add: collapse_ws_squeeze [of s] squeeze_squeeze)
qed

text \<open>
  Where the five removal passes delete nothing from the collapsed text, the cleaned text is
  the collapsed text and cleaning it again changes nothing.
\<close>

lemma clean_text_idempotent_without_removals:
  assumes "removals (collapse_ws s) = collapse_ws s"
  shows "clean_text s = collapse_ws s \<and> clean_text (clean_text s) = clean_text s"
proof -
  have c: "clean_text s = collapse_ws s"
    by (simp add: clean_text_def assms strip_trimmed [OF trimmed_collapse_ws])
  have "clean_text (collapse_ws s) = strip (removals (collapse_ws s))"
    by (simp add: clean_text_def collapse_ws_idem)
  also have "\<dots> = collapse_ws s"
    by (simp add: assms strip_trimmed [OF trimmed_collapse_ws])
  finally show ?thesis by (simp add: c)
qed

text \<open>
  Claim C2 (idempotence of cleaning): cleaning a cleaned text changes nothing, for every
  text. The code does not keep this. It collapses whitespace before the deletions and only
  trims the ends afterwards: deleting \<^verbatim>\<open>3:00\<close> from \<^verbatim>\<open>at 3:00 pm\<close> leaves two adjacent
  spaces inside the cleaned text, and a second cleaning collapses them.
\<close>

theorem clean_text_not_idempotent:
  "clean_text ''at 3:00 pm'' = ''at  pm'' \<and>
   clean_text (clean_text ''at 3:00 pm'') = ''at pm'' \<and>
   clean_text (clean_text ''at 3:00 pm'') \<noteq> clean_text ''at 3:00 pm''"
  by code_simp

lemma clean_text_spaced_lineup:
  "removals (collapse_ws spaced_lineup) = collapse_ws spaced_lineup \<and>
   clean_text spaced_lineup = collapse_ws spaced_lineup \<and>
   clean_text (clean_text spaced_lineup) = clean_text spaced_lineup"
proof -
  have h: "removals (collapse_ws spaced_lineup) = collapse_ws spaced_lineup"
    unfolding spaced_lineup_def by code_simp
  from clean_text_idempotent_without_removals [OF h] h show ?thesis
    by blast
qed

subsection \<open>Pattern extraction\<close>

lemma clamp_order: "min (1::real) (max 0 x) = max 0 (min 1 x)"
  by (simp add: min_def max_def)

lemma if_plus: "(if b then c + x else c) = c + (if b then x else (0::real))"
  by simp

lemma if_minus: "(if b then c - x else c) = c - (if b then x else (0::real))"
  by simp

text \<open>
  Claim C5 (confidence of a pattern match). For a match that is not empty and carries no
  surrounding whitespace, any line and any document, the code computes the score that the
  specification words: 0.5, plus 0.2 for an uppercase first character followed somewhere by
  a lowercase one, plus 0.3 when the match is the whole trimmed line, plus 0.1 for three or
  four words, minus 0.2 for a digit, plus \<open>min(0.2, occurrences * 0.05)\<close> when the match
  occurs more than once in the lowered document, clamped to the unit interval. Every match
  that the extractor scores meets the two hypotheses (lemma \<open>artist_match_stripped\<close>).
  Scores are reals here; the rounding of the float additions is not modelled.
\<close>

theorem pattern_confidence_formula:
  assumes "match \<noteq> []" and "strip match = match"
  shows "calculate_pattern_confidence match line full_text =
         Inr (spec_pattern_score match line full_text)"
proof -
  obtain m0 rest where m: "match = m0 # rest"
    using assms(1) by (cases match) auto
  have h: "hd match = m0" "tl match = rest"
    by (simp_all add: m)
  have s: "(strip line = strip match) = (match = strip line)"
    using assms(2) by auto
  have w: "(3 \<le> length (split match) \<and> length (split match) \<le> 4) =
      (length (split match) \<in> {3, 4})"
    by auto
  have "calculate_pattern_confidence match line full_text =
      (case match of [] \<Rightarrow> Inl IndexError
       | m0 # rest \<Rightarrow> Inr (spec_pattern_score match line full_text))"
    unfolding calculate_pattern_confidence_def spec_pattern_score_def Let_def s w clamp_order
      if_plus if_minus
    by (simp only: m list.case list.sel)
  then show ?thesis by (simp only: m list.case)
qed

theorem pattern_confidence_formula_witness:
  "calculate_pattern_confidence ''Justice'' ''Justice and Justice'' ''Justice and Justice'' =
     Inr (spec_pattern_score ''Justice'' ''Justice and Justice'' ''Justice and Justice'') \<and>
   spec_pattern_score ''Justice'' ''Justice and Justice'' ''Justice and Justice'' = 8 / 10"
proof -
  have ne: "''Justice'' \<noteq> []"
    by simp
  have st: "strip ''Justice'' = ''Justice''"
    by code_simp
  have "spec_pattern_score ''Justice'' ''Justice and Justice'' ''Justice and Justice'' = 8 / 10"
    by code_simp
  with pattern_confidence_formula [OF ne st] show ?thesis
    by blast
qed

lemma calculate_pattern_confidence_Inr:
  "match \<noteq> [] \<Longrightarrow> \<exists>r. calculate_pattern_confidence match line full_text = Inr r"
  by (cases match) (simp_all only: calculate_pattern_confidence_def list.case Let_def, blast)

lemma collect_all:
  assumes "\<forall>x\<in>set xs. \<exists>ys. f x = Inr ys \<and> list_all P ys"
  shows "\<exists>zs. collect f xs = Inr zs \<and> list_all P zs"
  using assms
proof (induction xs)
  case Nil
  then show ?case by simp
next
  case (Cons x xs)
  then obtain ys zs where "f x = Inr ys" "list_all P ys" "collect f xs = Inr zs" "list_all P zs"
    by auto
  then show ?case by simp
qed

lemma process_match_total:
  "\<exists>cs. process_match text line match = Inr cs \<and> list_all (\<lambda>c. confidence c > 3 / 10) cs"
proof (cases "match = []")
  case True
  then show ?thesis by (simp add: process_match_def Let_def)
next
  case False
  then obtain r where "calculate_pattern_confidence match line text = Inr r"
    using calculate_pattern_confidence_Inr by blast
  then show ?thesis by (simp add: process_match_def Let_def)
qed

lemma process_line_total:
  "\<exists>cs. process_line text line0 = Inr cs \<and> list_all (\<lambda>c. confidence c > 3 / 10) cs"
proof (cases "strip line0 = [] \<or> length (strip line0) < 2")
  case True
  then show ?thesis by (auto simp: process_line_def)
next
  case False
  have "\<exists>cs. collect (\<lambda>pattern. collect (process_match text (strip line0))
          (re_findall pattern (strip line0))) artist_patterns = Inr cs \<and>
        list_all (\<lambda>c. confidence c > 3 / 10) cs"
    by (intro collect_all ballI process_match_total)
  with False show ?thesis by (simp add: process_line_def Let_def)
qed

lemma potential_artists_total:
  "\<exists>cs. potential_artists text = Inr cs \<and> list_all (\<lambda>c. confidence c > 3 / 10) cs"
  unfolding potential_artists_def
  by (intro collect_all ballI process_line_total)

lemma unique_artists_subset: "set (unique_artists seen xs) \<subseteq> set xs"
  by (induction xs arbitrary: seen) (auto simp: Let_def)

lemma unique_artists_unseen:
  "c \<in> set (unique_artists seen xs) \<Longrightarrow> lower (name c) \<notin> seen"
  by (induction xs arbitrary: seen) (auto simp: Let_def split: if_splits)

lemma unique_artists_distinct:
  "distinct (map (\<lambda>a. lower (name a)) (unique_artists seen xs))"
proof (induction xs arbitrary: seen)
  case Nil
  then show ?case by simp
next
  case (Cons x xs)
  let ?k = "lower (name x)"
  have "?k \<notin> (\<lambda>a. lower (name a)) ` set (unique_artists (insert ?k seen) xs)"
    using unique_artists_unseen [of _ "insert ?k seen" xs] by fastforce
  then show ?case
    using Cons.IH by (simp add: Let_def)
qed

lemma unique_artists_first:
  "c \<in> set (unique_artists seen xs) \<Longrightarrow>
   \<exists>earlier later. xs = earlier @ c # later \<and>
     (\<forall>d\<in>set earlier. lower (name d) \<noteq> lower (name c))"
proof (induction xs arbitrary: seen)
  case Nil
  then show ?case by simp
next
  case (Cons x xs)
  show ?case
  proof (cases "c = x \<and> lower (name x) \<notin> seen")
    case True
    then have "x # xs = [] @ c # xs" by simp
    then show ?thesis by (metis empty_iff list.set(1))
  next
    case False
    have in_rest: "c \<in> set (unique_artists (if lower (name x) \<notin> seen
        then insert (lower (name x)) seen else seen) xs)"
      using Cons.prems False by (auto simp: Let_def split: if_splits)
    then obtain earlier later where e: "xs = earlier @ c # later"
      "\<forall>d\<in>set earlier. lower (name d) \<noteq> lower (name c)"
      using Cons.IH by blast
    have "lower (name x) \<noteq> lower (name c)"
    proof (cases "lower (name x) \<notin> seen")
      case True
      with in_rest show ?thesis using unique_artists_unseen by fastforce
    next
      case False
      with Cons.prems show ?thesis using unique_artists_unseen by (fastforce simp: Let_def)
    qed
    with e have "x # xs = (x # earlier) @ c # later \<and>
        (\<forall>d\<in>set (x # earlier). lower (name d) \<noteq> lower (name c))"
      by simp
    then show ?thesis by blast
  qed
qed

lemma unique_sorted_highest:
  assumes "c \<in> set (unique_artists seen (by_confidence_desc xs))"
    and "d \<in> set xs" and "lower (name d) = lower (name c)"
  shows "confidence d \<le> confidence c"
proof -
  let ?ys = "by_confidence_desc xs"
  obtain earlier later where e: "?ys = earlier @ c # later"
    "\<forall>d\<in>set earlier. lower (name d) \<noteq> lower (name c)"
    using unique_artists_first [OF assms(1)] by blast
  have "sorted (map (\<lambda>x. - confidence x) ?ys)"
    by (simp add: by_confidence_desc_def)
  then have later: "\<forall>y\<in>set later. - confidence c \<le> - confidence y"
    by (simp add: e(1) sorted_append)
  have "d \<in> set ?ys"
    using assms(2) by (simp add: by_confidence_desc_def)
  then have "d = c \<or> d \<in> set later"
    using e assms(3) by auto
  then show ?thesis using later by auto
qed

text \<open>
  Claim C9 (bounds of the pattern extractor). For every text the extractor returns a list
  (it does not raise) of at most 20 candidates, each with a confidence above 0.3, with
  pairwise different lowered names; each returned candidate is one of the scored matches,
  and no scored match of the same lowered name has a higher confidence.
\<close>

theorem extract_with_patterns_bounds:
  "\<exists>found cs. potential_artists text = Inr found \<and> extract_with_patterns text = Inr cs \<and>
     length cs \<le> 20 \<and>
     (\<forall>c\<in>set cs. confidence c > 3 / 10) \<and>
     distinct (map (\<lambda>c. lower (name c)) cs) \<and>
     (\<forall>c\<in>set cs. c \<in> set found \<and>
        (\<forall>d\<in>set found. lower (name d) = lower (name c) \<longrightarrow> confidence d \<le> confidence c))"
proof -
  obtain found where f: "potential_artists text = Inr found"
    "list_all (\<lambda>c. confidence c > 3 / 10) found"
    using potential_artists_total by blast
  let ?u = "unique_artists {} (by_confidence_desc found)"
  let ?cs = "take 20 ?u"
  have r: "extract_with_patterns text = Inr ?cs"
    by (simp add: extract_with_patterns_def f(1))
  have sub: "set ?cs \<subseteq> set ?u"
    by (rule set_take_subset)
  have u_found: "set ?u \<subseteq> set found"
    using unique_artists_subset [of "{}" "by_confidence_desc found"]
    by (simp add: by_confidence_desc_def)
  have conf: "\<forall>c\<in>set ?cs. confidence c > 3 / 10"
    using sub u_found f(2) by (auto simp: list_all_iff)
  have dist: "distinct (map (\<lambda>c. lower (name c)) ?cs)"
    using unique_artists_distinct [of "{}" "by_confidence_desc found"]
    by (simp add: take_map [symmetric] distinct_take)
  have high: "\<forall>c\<in>set ?cs. c \<in> set found \<and>
      (\<forall>d\<in>set found. lower (name d) = lower (name c) \<longrightarrow> confidence d \<le> confidence c)"
    using sub u_found unique_sorted_highest [of _ "{}" found] by blast
  have "length ?cs \<le> 20" by simp
  with f(1) r conf dist high show ?thesis by blast
qed

lemma two_acts_found:
  "potential_artists two_acts =
     Inr [abba_alone,
          \<lparr>name = ''ABBA'', confidence = 6 / 10, method = ''pattern_matching'',
           context = ''ABBA rocks''\<rparr>]"
  unfolding two_acts_def abba_alone_def by code_simp

lemma two_acts_extracted: "extract_with_patterns two_acts = Inr [abba_alone]"
  unfolding two_acts_def abba_alone_def by code_simp

theorem extract_with_patterns_bounds_witness:
  "\<exists>found. potential_artists two_acts = Inr found \<and> length found = 2 \<and>
     extract_with_patterns two_acts = Inr [abba_alone] \<and>
     confidence abba_alone > 3 / 10 \<and>
     (\<forall>d\<in>set found. lower (name d) = lower (name abba_alone) \<longrightarrow>
        confidence d \<le> confidence abba_alone)"
proof -
  from extract_with_patterns_bounds [of two_acts] obtain found cs where
    h: "potential_artists two_acts = Inr found" "extract_with_patterns two_acts = Inr cs"
      "\<forall>c\<in>set cs. confidence c > 3 / 10"
      "\<forall>c\<in>set cs. c \<in> set found \<and>
         (\<forall>d\<in>set found. lower (name d) = lower (name c) \<longrightarrow> confidence d \<le> confidence c)"
    by blast
  from h(2) have cs: "cs = [abba_alone]"
    by (simp add: two_acts_extracted)
  from h(1) have "length found = 2"
    by (auto simp: two_acts_found)
  with h cs show ?thesis
    by (intro exI [of _ found]) simp
qed

subsection \<open>AI adapters\<close>

lemma catch_all_Inr: "\<exists>cs. catch_all body = Inr cs"
  by (cases body) (simp_all add: catch_all_def)

lemma catch_all_failed: "isl body \<Longrightarrow> catch_all body = Inr []"
  by (cases body) (simp_all add: catch_all_def)

lemma gemini_generate_total: "\<exists>cs. gemini_generate svc input = Inr cs"
  by (simp add: gemini_generate_def catch_all_Inr)

lemma parse_gemini_response_total: "\<exists>cs. parse_gemini_response lb response_text = Inr cs"
  by (simp add: parse_gemini_response_def catch_all_Inr)

lemma extract_with_vertex_ai_total: "\<exists>cs. extract_with_vertex_ai svc input = Inr cs"
  by (simp add: extract_with_vertex_ai_def catch_all_Inr)

lemma extract_with_gemini_total: "\<exists>cs. extract_with_gemini svc input = Inr cs"
  by (simp add: extract_with_gemini_def catch_all_Inr)

lemma gemini_generate_failure:
  assumes "gemini_failure svc input"
  shows "gemini_generate svc input = Inr []"
proof (cases "gemini_model svc")
  case None
  then show ?thesis by (simp add: gemini_generate_def is_available_def)
next
  case (Some g)
  show ?thesis
  proof (cases "g input")
    case (Inl e)
    with Some show ?thesis
      by (simp add: gemini_generate_def is_available_def catch_all_def)
  next
    case (Inr response_text)
    show ?thesis
    proof (cases "response_text = []")
      case True
      with Some Inr show ?thesis
        by (simp add: gemini_generate_def is_available_def catch_all_def)
    next
      case False
      have "parse_gemini_response (library svc) response_text = Inr []"
        using assms Some Inr False
        by (auto simp: gemini_failure_def parse_gemini_response_def catch_all_def Let_def
            split: option.splits sum.splits)
      with Some Inr False show ?thesis
        by (simp add: gemini_generate_def is_available_def catch_all_def)
    qed
  qed
qed

lemma extract_with_vertex_ai_failure:
  assumes "vertex_failure svc input"
  shows "extract_with_vertex_ai svc input = Inr []"
  using assms
  by (auto simp: vertex_failure_def extract_with_vertex_ai_def catch_all_def Let_def
      split: option.splits sum.splits)

text \<open>
  Claim C8 (failure semantics of AI extraction). The four AI extraction operations always
  return a list: no exception reaches the caller. Whenever the call fails, that is the
  service is unavailable (missing key or project), the provider call raises, or the answer
  is empty, holds no array, cannot be decoded or cannot be processed, the returned list is
  empty.
\<close>

theorem ai_extraction_failure_semantics:
  "(\<exists>cs. extract_artists_from_text svc input = Inr cs) \<and>
   (\<exists>cs. extract_artists_from_image svc input = Inr cs) \<and>
   (\<exists>cs. extract_with_gemini svc input = Inr cs) \<and>
   (\<exists>cs. extract_with_vertex_ai svc input = Inr cs) \<and>
   (gemini_failure svc input \<longrightarrow>
      extract_artists_from_text svc input = Inr [] \<and>
      extract_artists_from_image svc input = Inr [] \<and>
      extract_with_gemini svc input = Inr []) \<and>
   (vertex_failure svc input \<longrightarrow> extract_with_vertex_ai svc input = Inr [])"
proof -
  have g: "gemini_failure svc input \<longrightarrow> extract_with_gemini svc input = Inr []"
    by (simp add: extract_with_gemini_def extract_artists_from_text_def
        gemini_generate_failure catch_all_def)
  show ?thesis
    using g gemini_generate_total [of svc input] extract_with_gemini_total [of svc input]
      extract_with_vertex_ai_total [of svc input]
    by (simp add: extract_artists_from_text_def extract_artists_from_image_def
        gemini_generate_failure extract_with_vertex_ai_failure)
qed

theorem ai_extraction_failure_semantics_witness:
  "gemini_failure offline ''Daft Punk'' \<and> vertex_failure offline ''Daft Punk'' \<and>
   gemini_failure unreachable ''Daft Punk'' \<and> vertex_failure unreachable ''Daft Punk'' \<and>
   vertex_failure garbled ''Daft Punk'' \<and> gemini_failure garbled ''Daft Punk'' \<and>
   extract_artists_from_text offline ''Daft Punk'' = Inr [] \<and>
   extract_with_vertex_ai offline ''Daft Punk'' = Inr [] \<and>
   extract_with_gemini unreachable ''Daft Punk'' = Inr [] \<and>
   extract_with_vertex_ai unreachable ''Daft Punk'' = Inr [] \<and>
   extract_artists_from_text garbled ''Daft Punk'' = Inr [] \<and>
   extract_with_vertex_ai garbled ''Daft Punk'' = Inr []"
proof -
  have o: "gemini_failure offline ''Daft Punk''" "vertex_failure offline ''Daft Punk''"
    by (simp_all add: gemini_failure_def vertex_failure_def offline_def)
  have u: "gemini_failure unreachable ''Daft Punk''" "vertex_failure unreachable ''Daft Punk''"
    by (simp_all add: gemini_failure_def vertex_failure_def unreachable_def)
  have g1: "gemini_failure garbled ''Daft Punk''"
    by code_simp
  have g2: "vertex_failure garbled ''Daft Punk''"
    by code_simp
  from o u g1 g2
    ai_extraction_failure_semantics [of offline "''Daft Punk''"]
    ai_extraction_failure_semantics [of unreachable "''Daft Punk''"]
    ai_extraction_failure_semantics [of garbled "''Daft Punk''"]
  show ?thesis by blast
qed

lemma clamp_unit_bounds: "0 \<le> clamp_unit f \<and> clamp_unit f \<le> 1"
  by (cases f) (simp_all add: clamp_unit_def Let_def)

lemma likely_artist_name_excludes:
  assumes "is_likely_artist_name nm"
  shows "strip (lower nm) \<notin> set excluded_terms \<and>
     \<not> re_match clock_re nm \<and> \<not> re_match ampm_re (strip (lower nm)) \<and>
     \<not> re_match dollar_re nm \<and> \<not> contains ''dollar'' (strip (lower nm))"
proof -
  let ?l = "strip (lower nm)"
  have "\<not> (length nm < 2 \<or> ?l \<in> set excluded_terms)"
    using assms unfolding is_likely_artist_name_def Let_def by (meson)
  moreover have "\<not> (re_match clock_re nm \<or> re_match ampm_re ?l)"
    using assms unfolding is_likely_artist_name_def Let_def by (meson)
  moreover have "\<not> (re_match dollar_re nm \<or> contains ''dollar'' ?l)"
    using assms unfolding is_likely_artist_name_def Let_def by (meson)
  ultimately show ?thesis by blast
qed

lemma gemini_entry_valid:
  assumes "gemini_entry artist = Inr cs"
  shows "list_all gemini_valid cs"
proof (cases artist)
  case (JObj kvs)
  show ?thesis
  proof (cases "map_of kvs ''name''")
    case None
    with assms JObj show ?thesis
      by (simp add: gemini_entry_def strip_def)
  next
    case (Some v)
    show ?thesis
    proof (cases v)
      case (JStr s)
      let ?nm = "strip s"
      let ?conf = "case map_of kvs ''confidence'' of None \<Rightarrow> JFloat (Finite 0) | Some v \<Rightarrow> v"
      have e: "gemini_entry artist =
          (if ?nm = [] \<or> \<not> is_number ?conf then Inr []
           else (case float_of_number ?conf of
                   Inl e \<Rightarrow> Inl e
                 | Inr f \<Rightarrow>
                     if is_likely_artist_name ?nm
                     then Inr [\<lparr>name = ?nm, confidence = clamp_unit f, method = ''gemini'',
                                context = []\<rparr>]
                     else Inr []))"
        by (simp add: gemini_entry_def JObj Some JStr Let_def)
      show ?thesis
      proof (cases "?nm = [] \<or> \<not> is_number ?conf")
        case True
        with assms e show ?thesis by auto
      next
        case False
        show ?thesis
        proof (cases "float_of_number ?conf")
          case (Inl x)
          with assms e False show ?thesis by simp
        next
          case (Inr f)
          show ?thesis
          proof (cases "is_likely_artist_name ?nm")
            case True
            with assms e False Inr have
              "cs = [\<lparr>name = ?nm, confidence = clamp_unit f, method = ''gemini'', context = []\<rparr>]"
              by simp
            with False likely_artist_name_excludes [OF True] clamp_unit_bounds [of f]
            show ?thesis
              by (simp add: gemini_valid_def strip_strip)
          next
            case no: False
            with assms e False Inr show ?thesis by simp
          qed
        qed
      qed
    qed (use assms JObj Some in \<open>simp_all add: gemini_entry_def\<close>)
  qed
qed (use assms in \<open>auto simp: gemini_entry_def\<close>)

lemma collect_Inr_all:
  assumes "collect f xs = Inr zs" and "\<And>x ys. f x = Inr ys \<Longrightarrow> list_all P ys"
  shows "list_all P zs"
  using assms(1)
proof (induction xs arbitrary: zs)
  case Nil
  then show ?case by simp
next
  case (Cons x xs)
  from Cons.prems obtain ys ws where
    h: "f x = Inr ys" "collect f xs = Inr ws" "zs = ys @ ws"
    by (auto split: sum.splits)
  from assms(2) [OF h(1)] Cons.IH [OF h(2)] h(3) show ?case by simp
qed

lemma catch_all_valid:
  assumes "\<And>cs. body = Inr cs \<Longrightarrow> list_all P cs"
  shows "\<exists>cs. catch_all body = Inr cs \<and> list_all P cs"
  using assms by (cases body) (simp_all add: catch_all_def)

lemma parse_gemini_response_valid:
  "\<exists>cs. parse_gemini_response lb response_text = Inr cs \<and> list_all gemini_valid cs"
  unfolding parse_gemini_response_def Let_def
proof (rule catch_all_valid)
  fix cs
  assume "(case re_search array_lazy_re (strip response_text) of
             None \<Rightarrow> Inr []
           | Some json_str \<Rightarrow>
               (case json_loads lb json_str of
                  Inl e \<Rightarrow> Inl e
                | Inr artists_data \<Rightarrow>
                    (case iterate artists_data of
                       Inl e \<Rightarrow> Inl e
                     | Inr items \<Rightarrow> collect gemini_entry items))) = Inr cs"
  then have "cs = [] \<or> (\<exists>items. collect gemini_entry items = Inr cs)"
    by (auto split: option.splits sum.splits)
  then show "list_all gemini_valid cs"
    using collect_Inr_all [of gemini_entry _ cs gemini_valid] gemini_entry_valid by auto
qed

lemma gemini_generate_valid:
  "\<exists>cs. gemini_generate svc input = Inr cs \<and> list_all gemini_valid cs"
proof (cases "is_available svc")
  case False
  then show ?thesis by (simp add: gemini_generate_def)
next
  case True
  have "\<exists>cs. catch_all
          (case gemini_model svc of
             None \<Rightarrow> Inl AttributeError
           | Some generate_content \<Rightarrow>
               (case generate_content input of
                  Inl e \<Rightarrow> Inl e
                | Inr response_text \<Rightarrow>
                    if response_text \<noteq> [] then parse_gemini_response (library svc) response_text
                    else Inr [])) = Inr cs \<and> list_all gemini_valid cs"
  proof (rule catch_all_valid)
    fix cs
    assume "(case gemini_model svc of
               None \<Rightarrow> Inl AttributeError
             | Some generate_content \<Rightarrow>
                 (case generate_content input of
                    Inl e \<Rightarrow> Inl e
                  | Inr response_text \<Rightarrow>
                      if response_text \<noteq> [] then parse_gemini_response (library svc) response_text
                      else Inr [])) = Inr cs"
    then have "cs = [] \<or> (\<exists>t. parse_gemini_response (library svc) t = Inr cs)"
      by (auto split: option.splits sum.splits if_splits)
    then show "list_all gemini_valid cs"
    proof
      assume "cs = []"
      then show ?thesis by simp
    next
      assume "\<exists>t. parse_gemini_response (library svc) t = Inr cs"
      then obtain t where "parse_gemini_response (library svc) t = Inr cs" ..
      with parse_gemini_response_valid [of "library svc" t] show ?thesis by auto
    qed
  qed
  with True show ?thesis by (simp add: gemini_generate_def)
qed

lemma vertex_entry_valid:
  assumes "vertex_entry lb artist = Inr cs"
  shows "list_all vertex_valid cs"
  using assms
  by (auto simp: vertex_entry_def vertex_valid_def Let_def strip_strip
      split: json.splits option.splits sum.splits pyfloat.splits if_splits)

lemma extract_with_vertex_ai_valid:
  "\<exists>cs. extract_with_vertex_ai svc input = Inr cs \<and> list_all vertex_valid cs"
proof (cases "case project_id svc of None \<Rightarrow> True | Some p \<Rightarrow> p = []")
  case True
  then show ?thesis by (simp add: extract_with_vertex_ai_def)
next
  case False
  let ?body = "case vertex_predict svc input of
      Inl e \<Rightarrow> Inl e
    | Inr response \<Rightarrow>
        (case re_search array_greedy_re (strip response) of
           None \<Rightarrow> Inr []
         | Some json_str \<Rightarrow>
             (case json_loads (library svc) json_str of
                Inl e \<Rightarrow> Inl e
              | Inr artists_data \<Rightarrow>
                  (case iterate artists_data of
                     Inl e \<Rightarrow> Inl e
                   | Inr items \<Rightarrow> collect (vertex_entry (library svc)) items)))"
  have "\<exists>cs. catch_all ?body = Inr cs \<and> list_all vertex_valid cs"
  proof (rule catch_all_valid)
    fix cs
    assume "?body = Inr cs"
    then have "cs = [] \<or> (\<exists>items. collect (vertex_entry (library svc)) items = Inr cs)"
      by (auto split: option.splits sum.splits)
    then show "list_all vertex_valid cs"
      using collect_Inr_all [of "vertex_entry (library svc)" _ cs vertex_valid]
        vertex_entry_valid by auto
  qed
  with False show ?thesis unfolding extract_with_vertex_ai_def Let_def by simp
qed

lemma gemini_entry_clamps:
  assumes "gemini_entry (JObj kvs) = Inr [c]"
  shows "\<exists>f. float_of_number (case map_of kvs ''confidence'' of
                                   None \<Rightarrow> JFloat (Finite 0) | Some v \<Rightarrow> v) = Inr f \<and>
             confidence c = clamp_unit f"
  using assms
  by (auto simp: gemini_entry_def Let_def split: option.splits json.splits sum.splits if_splits)

lemma vertex_entry_drops:
  assumes "map_of kvs ''name'' = Some n" and "map_of kvs ''confidence'' = Some v"
    and "py_float lb v = Inr (Finite r)" and "r < 0 \<or> 1 < r"
  shows "vertex_entry lb (JObj kvs) = Inr []"
  using assms by (auto simp: vertex_entry_def Let_def)

text \<open>
  What the two validations guarantee. A candidate returned by a Gemini adapter has a name
  that is non-empty and trimmed, a confidence that is the model's number clamped into the
  unit interval, and a name that is neither an excluded term nor matched by a time or price
  pattern. A candidate returned by the Vertex AI adapter has a name that is non-empty and
  trimmed and a confidence within the unit interval; there an entry whose confidence lies
  outside the unit interval is dropped.
\<close>

lemma ai_entries_validated:
  "(\<exists>cs. extract_artists_from_text svc input = Inr cs \<and> list_all gemini_valid cs) \<and>
   (\<exists>cs. extract_artists_from_image svc input = Inr cs \<and> list_all gemini_valid cs) \<and>
   (\<exists>cs. extract_with_vertex_ai svc input = Inr cs \<and> list_all vertex_valid cs) \<and>
   (gemini_entry (JObj kvs) = Inr [c] \<longrightarrow>
      (\<exists>f. float_of_number (case map_of kvs ''confidence'' of
                               None \<Rightarrow> JFloat (Finite 0) | Some v \<Rightarrow> v) = Inr f \<and>
           confidence c = clamp_unit f)) \<and>
   (map_of kvs ''name'' = Some n \<and> map_of kvs ''confidence'' = Some v \<and>
    py_float lb v = Inr (Finite r) \<and> (r < 0 \<or> 1 < r) \<longrightarrow>
      vertex_entry lb (JObj kvs) = Inr [])"
  using gemini_generate_valid [of svc input] extract_with_vertex_ai_valid [of svc input]
    gemini_entry_clamps [of kvs c] vertex_entry_drops [of kvs n v lb r]
  by (simp add: extract_artists_from_text_def extract_artists_from_image_def)

lemma gemini_only_extracted:
  "extract_artists_from_text gemini_only ''Daft Punk'' = Inr [daft_punk_clamped]"
  unfolding daft_punk_clamped_def by code_simp

lemma vertex_only_extracted:
  "extract_with_vertex_ai vertex_only ''Summer festival'' = Inr [festival_vertex]"
  unfolding festival_vertex_def by code_simp

text \<open>
  Claim C4 (validation of AI entries): every adapter, Vertex AI included, rejects a name
  that matches the excluded-term list. The Gemini adapters do, through
  \<^verbatim>\<open>_is_likely_artist_name\<close>. The Vertex AI adapter does not call it: it checks only that
  the name is non-empty and the confidence within the unit interval, and on a reply that
  names \<^verbatim>\<open>festival\<close>, an excluded term, it returns that name as a candidate, while the
  Gemini adapter on the same reply returns nothing.
\<close>

lemma festival_reply_gemini:
  "extract_artists_from_text festival_gemini ''Summer festival'' = Inr []"
  by code_simp

theorem vertex_keeps_excluded_term:
  "extract_with_vertex_ai vertex_only ''Summer festival'' = Inr [festival_vertex] \<and>
   name festival_vertex \<in> set excluded_terms \<and>
   \<not> is_likely_artist_name (name festival_vertex) \<and>
   extract_artists_from_text festival_gemini ''Summer festival'' = Inr []"
proof -
  have "name festival_vertex \<in> set excluded_terms"
    by (simp add: excluded_terms_def festival_vertex_def)
  moreover have "\<not> is_likely_artist_name (name festival_vertex)"
    unfolding festival_vertex_def by code_simp
  ultimately show ?thesis
    using vertex_only_extracted festival_reply_gemini by simp
qed

lemma loud_entry_gemini: "gemini_entry loud_entry = Inr [daft_punk_clamped]"
  unfolding loud_entry_def daft_punk_clamped_def by code_simp

lemma ai_entries_validated_example:
  "extract_artists_from_text gemini_only ''Daft Punk'' = Inr [daft_punk_clamped] \<and>
   gemini_valid daft_punk_clamped \<and>
   extract_with_vertex_ai vertex_only ''Summer festival'' = Inr [festival_vertex] \<and>
   vertex_valid festival_vertex \<and>
   gemini_entry loud_entry = Inr [daft_punk_clamped] \<and>
   confidence daft_punk_clamped = clamp_unit (Finite (15 / 10)) \<and>
   vertex_entry example_lib loud_entry = Inr []"
proof -
  have kvs: "loud_entry = JObj [(''name'', JStr '' Daft Punk ''),
      (''confidence'', JFloat (Finite (15 / 10)))]"
    by (simp add: loud_entry_def)
  have n: "map_of [(''name'', JStr '' Daft Punk ''), (''confidence'', JFloat (Finite (15 / 10)))]
      ''name'' = Some (JStr '' Daft Punk '')"
    by simp
  have v: "map_of [(''name'', JStr '' Daft Punk ''), (''confidence'', JFloat (Finite (15 / 10)))]
      ''confidence'' = Some (JFloat (Finite (15 / 10)))"
    by simp
  have f: "py_float example_lib (JFloat (Finite (15 / 10))) = Inr (Finite (15 / 10))"
    by (simp add: py_float_def float_of_number_def)
  have r: "(15 / 10 :: real) < 0 \<or> 1 < (15 / 10 :: real)"
    by simp
  note t = ai_entries_validated [of gemini_only "''Daft Punk''"
      "[(''name'', JStr '' Daft Punk ''), (''confidence'', JFloat (Finite (15 / 10)))]"
      daft_punk_clamped "JStr '' Daft Punk ''" "JFloat (Finite (15 / 10))" example_lib "15 / 10"]
  note t' = ai_entries_validated [of vertex_only "''Summer festival''"]
  from t obtain cs where
    "extract_artists_from_text gemini_only ''Daft Punk'' = Inr cs" "list_all gemini_valid cs"
    by blast
  then have g: "gemini_valid daft_punk_clamped"
    by (auto simp: gemini_only_extracted)
  from t' obtain ds where
    "extract_with_vertex_ai vertex_only ''Summer festival'' = Inr ds" "list_all vertex_valid ds"
    by blast
  then have w: "vertex_valid festival_vertex"
    by (auto simp: vertex_only_extracted)
  from t n v f r have d: "vertex_entry example_lib loud_entry = Inr []"
    unfolding kvs by blast
  from t loud_entry_gemini have "confidence daft_punk_clamped = clamp_unit (Finite (15 / 10))"
    unfolding kvs by (auto simp: float_of_number_def)
  with g w d loud_entry_gemini gemini_only_extracted vertex_only_extracted show ?thesis
    by simp
qed

end
